theory Spec2Isabelle
  imports Complex_Main "HOL-Library.List_Lexorder"
begin

section \<open>Python values\<close>

text \<open>
  A Python \<open>str\<close> is a sequence of Unicode code points, modelled as a list of naturals;
  \<open>ascii\<close> writes an ASCII literal. Strings compare lexicographically by code point, as
  Python's \<open>sorted\<close> does. Python floats are modelled as real numbers.
\<close>

type_synonym ustr = "nat list"

definition ascii :: "string \<Rightarrow> ustr" where
  "ascii s = map of_char s"

text \<open>
  The paper records of the repository are duck-typed dictionaries. A key of a dictionary
  is absent, holds \<open>None\<close>, or holds a value; \<open>fget\<close> is \<open>d.get(key)\<close>.
\<close>

datatype 'a field = Absent | Null | Val 'a

fun fget :: "'a field \<Rightarrow> 'a option" where
  "fget (Val x) = Some x"
| "fget _ = None"

datatype yearval = YInt int | YText ustr

text \<open>
  One record type carries the keys that the retrieval and analysis code read or write.
  \<open>features\<close> holds a reference to a nested dictionary, which lives in a store, so that
  sharing between a dictionary and its shallow copy is visible.
\<close>

record paper =
  paper_id :: "ustr field"
  id_key :: "ustr field"
  title :: "ustr field"
  abstract :: "ustr field"
  year :: "yearval field"
  journal :: "ustr field"
  source :: "ustr field"
  keywords_f :: "ustr list field"
  vector :: "real list field"
  features :: "nat field"
  attitude_label :: "ustr field"
  methods_label :: "ustr field"
  score :: "real field"

definition empty_dict :: paper where
  "empty_dict = \<lparr> paper_id = Absent, id_key = Absent, title = Absent, abstract = Absent,
     year = Absent, journal = Absent, source = Absent, keywords_f = Absent, vector = Absent,
     features = Absent, attitude_label = Absent, methods_label = Absent, score = Absent \<rparr>"

text \<open>Truthiness of an optional string, and Python's \<open>a or b\<close> on such values.\<close>

fun truthy_str :: "ustr option \<Rightarrow> bool" where
  "truthy_str (Some s) = (s \<noteq> [])"
| "truthy_str None = False"

definition or_str :: "ustr option \<Rightarrow> ustr option \<Rightarrow> ustr option" where
  "or_str a b = (if truthy_str a then a else b)"

definition str_or_empty :: "ustr option \<Rightarrow> ustr" where
  "str_or_empty a = (case a of Some s \<Rightarrow> s | None \<Rightarrow> [])"

section \<open>Dictionaries in insertion order and \<open>collections.Counter\<close>\<close>

fun dict_set :: "('k \<times> 'v) list \<Rightarrow> 'k \<Rightarrow> 'v \<Rightarrow> ('k \<times> 'v) list" where
  "dict_set [] k v = [(k, v)]"
| "dict_set ((k', v') # d) k v =
     (if k' = k then (k, v) # d else (k', v') # dict_set d k v)"

definition counter_get :: "('k \<times> nat) list \<Rightarrow> 'k \<Rightarrow> nat" where
  "counter_get c k = (case map_of c k of None \<Rightarrow> 0 | Some n \<Rightarrow> n)"

definition counter_inc :: "('k \<times> nat) list \<Rightarrow> 'k \<Rightarrow> ('k \<times> nat) list" where
  "counter_inc c k = dict_set c k (counter_get c k + 1)"

definition counter_update :: "('k \<times> nat) list \<Rightarrow> 'k list \<Rightarrow> ('k \<times> nat) list" where
  "counter_update c ks = fold (\<lambda>k c. counter_inc c k) ks c"

text \<open>
  \<open>list.sort(key=..., reverse=True)\<close> and \<open>sorted(..., reverse=True)\<close> are stable: the
  list is reversed, sorted stably in ascending order, and reversed again.
\<close>

definition sort_desc :: "('a \<Rightarrow> 'b::linorder) \<Rightarrow> 'a list \<Rightarrow> 'a list" where
  "sort_desc f xs = rev (sort_key f (rev xs))"

definition most_common :: "nat \<Rightarrow> ('k \<times> nat) list \<Rightarrow> ('k \<times> nat) list" where
  "most_common n c = take n (sort_desc snd c)"

section \<open>The analysis service: enrichment\<close>

text \<open>
  The store of a call: the paper dictionaries and the nested \<open>features\<close> dictionaries,
  each addressed by its index. The caller's list of papers is a list of addresses.
\<close>

text \<open>
  The addresses a caller passes are addresses of the store, and a \<open>features\<close> reference
  points into \<open>feats\<close>; the model says nothing about a dangling address.
\<close>

record store =
  papers :: "paper list"
  feats :: "(string \<times> ustr field) list list"

text \<open>The models behind \<open>SinglePaperProcessor\<close> are external; the analyzer is given them.\<close>

record processor =
  extract_keywords :: "ustr \<Rightarrow> nat \<Rightarrow> ustr list"
  get_embedding :: "ustr \<Rightarrow> real list option"
  classify_attitude :: "ustr \<Rightarrow> ustr"

definition dict_copy :: "store \<Rightarrow> nat \<Rightarrow> store \<times> nat" where
  "dict_copy st a = (st\<lparr>papers := papers st @ [papers st ! a]\<rparr>, length (papers st))"

definition new_feats :: "store \<Rightarrow> (string \<times> ustr field) list \<Rightarrow> store \<times> nat" where
  "new_feats st d = (st\<lparr>feats := feats st @ [d]\<rparr>, length (feats st))"

definition set_paper :: "store \<Rightarrow> nat \<Rightarrow> (paper \<Rightarrow> paper) \<Rightarrow> store" where
  "set_paper st a f = st\<lparr>papers := (papers st)[a := f (papers st ! a)]\<rparr>"

definition set_feat :: "store \<Rightarrow> nat \<Rightarrow> string \<Rightarrow> ustr field \<Rightarrow> store" where
  "set_feat st a k v = st\<lparr>feats := (feats st)[a := dict_set (feats st ! a) k v]\<rparr>"

definition feat_get :: "store \<Rightarrow> nat \<Rightarrow> string \<Rightarrow> ustr option" where
  "feat_get st a k = (case map_of (feats st ! a) k of Some (Val s) \<Rightarrow> Some s | _ \<Rightarrow> None)"

definition to_field :: "ustr option \<Rightarrow> ustr field" where
  "to_field a = (case a of Some s \<Rightarrow> Val s | None \<Rightarrow> Null)"

definition full_text :: "ustr \<Rightarrow> ustr \<Rightarrow> ustr" where
  "full_text t a = t @ ascii ''. '' @ a"

text \<open>The default attitude label of the source, four ideographs (jinshen zhongxing).\<close>

definition default_attitude :: ustr where
  "default_attitude = [35880, 24910, 20013, 24615]"

text \<open>\<open>"features" not in p or not p["features"]\<close>: absent, \<open>None\<close> or an empty dictionary.\<close>

definition no_features :: "store \<Rightarrow> paper \<Rightarrow> bool" where
  "no_features st p = (case features p of Val a \<Rightarrow> feats st ! a = [] | _ \<Rightarrow> True)"

definition no_keywords :: "paper \<Rightarrow> bool" where
  "no_keywords p = (case keywords_f p of Val ks \<Rightarrow> ks = [] | _ \<Rightarrow> True)"

definition no_vector :: "paper \<Rightarrow> bool" where
  "no_vector p = (case vector p of Val v \<Rightarrow> False | _ \<Rightarrow> True)"

text \<open>
  One iteration of the loop of \<open>_enrich_papers\<close>. The variable \<open>p\<close> holds an address;
  \<open>p = dict(p)\<close> allocates a shallow copy and rebinds \<open>p\<close>; an assignment \<open>p[k] = v\<close>
  writes to the dictionary \<open>p\<close> is bound to. The result is the address appended to
  \<open>out\<close>, or \<open>None\<close> when the paper is skipped.
\<close>

definition enrich_keywords :: "processor \<Rightarrow> ustr \<Rightarrow> ustr \<Rightarrow> store \<times> nat \<Rightarrow> store \<times> nat" where
  "enrich_keywords pr t a sp =
     (let (st, p) = sp in
      if no_keywords (papers st ! p) then
        (let (st1, p1) = dict_copy st p
         in (set_paper st1 p1 (\<lambda>d. d\<lparr>keywords_f := Val (extract_keywords pr (full_text t a) 5)\<rparr>), p1))
      else (st, p))"

definition enrich_vector :: "processor \<Rightarrow> ustr \<Rightarrow> ustr \<Rightarrow> store \<times> nat \<Rightarrow> store \<times> nat" where
  "enrich_vector pr t a sp =
     (let (st, p) = sp in
      if no_vector (papers st ! p) then
        (let (st1, p1) = dict_copy st p
         in (set_paper st1 p1
               (\<lambda>d. d\<lparr>vector := (case get_embedding pr (full_text t a) of
                                    None \<Rightarrow> Null | Some v \<Rightarrow> Val v)\<rparr>), p1))
      else (st, p))"

definition enrich_features :: "processor \<Rightarrow> ustr \<Rightarrow> ustr \<Rightarrow> store \<times> nat \<Rightarrow> store \<times> nat" where
  "enrich_features pr t a sp =
     (let (st, p) = sp in
      if no_features st (papers st ! p) then
        (let (st1, p1) = dict_copy st p;
             d = papers st1 ! p1;
             att = or_str (fget (attitude_label d))
                     (Some (classify_attitude pr (if a \<noteq> [] then a else t)));
             ml = (case methods_label d of Absent \<Rightarrow> Val [] | v \<Rightarrow> v);
             (st2, f) = new_feats st1 [(''attitude'', to_field att), (''methods_label'', ml)]
         in (set_paper st2 p1 (\<lambda>d. d\<lparr>features := Val f\<rparr>), p1))
      else
        (let (st1, p1) = dict_copy st p;
             d = papers st1 ! p1;
             f = (case features d of Val f \<Rightarrow> f | _ \<Rightarrow> 0);
             att = or_str (fget (attitude_label d))
                     (or_str (feat_get st1 f ''attitude'') (Some default_attitude));
             st2 = set_feat st1 f ''attitude'' (to_field att);
             ml = or_str (fget (methods_label d))
                    (case map_of (feats st2 ! f) ''methods_label'' of
                       None \<Rightarrow> Some [] | Some v \<Rightarrow> fget v);
             st3 = set_feat st2 f ''methods_label'' (to_field ml)
         in (st3, p1)))"

definition enrich_paper :: "processor \<Rightarrow> store \<Rightarrow> nat \<Rightarrow> store \<times> nat option" where
  "enrich_paper pr st p0 =
     (let d = papers st ! p0;
          pid = or_str (fget (paper_id d)) (fget (id_key d));
          t = str_or_empty (fget (title d));
          a = str_or_empty (fget (abstract d))
      in if \<not> truthy_str pid then (st, None)
         else (let (st3, p3) = enrich_features pr t a
                                 (enrich_vector pr t a (enrich_keywords pr t a (st, p0)))
               in (set_paper st3 p3 (\<lambda>d. d\<lparr>id_key := to_field pid\<rparr>), Some p3)))"

fun enrich_papers :: "processor \<Rightarrow> store \<Rightarrow> nat list \<Rightarrow> store \<times> nat list" where
  "enrich_papers pr st [] = (st, [])"
| "enrich_papers pr st (p # ps) =
     (let (st1, r) = enrich_paper pr st p;
          (st2, out) = enrich_papers pr st1 ps
      in (st2, (case r of None \<Rightarrow> out | Some q \<Rightarrow> q # out)))"

section \<open>The analysis service: co-occurrence network\<close>

text \<open>
  \<open>for i in range(len(kws)): for j in range(i + 1, len(kws))\<close> visits the pairs of
  positions in this order; \<open>tuple(sorted([a, b]))\<close> swaps the two when \<open>b < a\<close>.
\<close>

fun pairs_of :: "'a list \<Rightarrow> ('a \<times> 'a) list" where
  "pairs_of [] = []"
| "pairs_of (x # xs) = map (Pair x) xs @ pairs_of xs"

definition sorted_pair :: "'a::linorder \<times> 'a \<Rightarrow> 'a \<times> 'a" where
  "sorted_pair p = (case p of (a, b) \<Rightarrow> if b < a then (b, a) else (a, b))"

definition kws_of :: "paper \<Rightarrow> ustr list" where
  "kws_of p = (case keywords_f p of Val ks \<Rightarrow> ks | _ \<Rightarrow> [])"

definition count_pairs :: "ustr list list \<Rightarrow> ((ustr \<times> ustr) \<times> nat) list" where
  "count_pairs kwss =
     fold (\<lambda>kws pc. fold (\<lambda>pr c. counter_inc c (sorted_pair pr)) (pairs_of kws) pc) kwss []"

definition count_words :: "ustr list list \<Rightarrow> (ustr \<times> nat) list" where
  "count_words kwss = fold (\<lambda>kws wc. counter_update wc kws) kwss []"

definition ellipsis :: ustr where
  "ellipsis = [8230]"

definition truncate_name :: "nat \<Rightarrow> ustr \<Rightarrow> ustr" where
  "truncate_name n s = take n s @ (if length s > n then ellipsis else [])"

record node =
  node_id :: ustr
  node_name :: ustr
  node_value :: nat
  symbolSize :: real

record network =
  nodes :: "node list"
  links :: "(ustr \<times> ustr \<times> nat) list"

definition kept_pairs :: "ustr list list \<Rightarrow> int \<Rightarrow> ((ustr \<times> ustr) \<times> nat) list" where
  "kept_pairs kwss min_weight = filter (\<lambda>(pr, w). int w \<ge> min_weight) (count_pairs kwss)"

definition cooccurrence_links :: "ustr list list \<Rightarrow> int \<Rightarrow> (ustr \<times> ustr \<times> nat) list" where
  "cooccurrence_links kwss min_weight = map (\<lambda>((u, v), w). (u, v, w)) (kept_pairs kwss min_weight)"

text \<open>
  \<open>valid_nodes\<close> is a Python set, whose iteration order is not specified; the model lists
  the nodes in the order of their first insertion.
\<close>

definition valid_nodes :: "ustr list list \<Rightarrow> int \<Rightarrow> ustr list" where
  "valid_nodes kwss min_weight =
     rev (remdups (rev (concat (map (\<lambda>((u, v), w). [u, v]) (kept_pairs kwss min_weight)))))"

definition cooccurrence_nodes :: "ustr list list \<Rightarrow> int \<Rightarrow> node list" where
  "cooccurrence_nodes kwss min_weight =
     map (\<lambda>n. \<lparr> node_id = n, node_name = truncate_name 12 n,
                 node_value = counter_get (count_words kwss) n,
                 symbolSize = ln (real (counter_get (count_words kwss) n) + 1) * 5 \<rparr>)
         (valid_nodes kwss min_weight)"

definition enriched_keywords :: "processor \<Rightarrow> store \<Rightarrow> nat list \<Rightarrow> ustr list list" where
  "enriched_keywords pr st ps =
     (let (st1, out) = enrich_papers pr st ps in map (\<lambda>a. kws_of (papers st1 ! a)) out)"

text \<open>The call returns the network; the store after the call is returned with it.\<close>

definition build_cooccurrence_network ::
    "processor \<Rightarrow> store \<Rightarrow> nat list \<Rightarrow> int \<Rightarrow> store \<times> network" where
  "build_cooccurrence_network pr st ps min_weight =
     (fst (enrich_papers pr st ps),
      \<lparr> nodes = cooccurrence_nodes (enriched_keywords pr st ps) min_weight,
        links = cooccurrence_links (enriched_keywords pr st ps) min_weight \<rparr>)"

section \<open>The analysis service: clustering\<close>

datatype py_error = AttributeError | IndexError | KeyError | ValueError

text \<open>
  \<open>numpy\<close> and \<open>sklearn.cluster.KMeans\<close> are external. \<open>ml_available\<close> says whether
  \<open>_try_import_ml\<close> finds them; \<open>fit_predict n X\<close> stands for
  \<open>KMeans(n_clusters=n, random_state=42, n_init=10).fit_predict(X)\<close>, which returns one
  label per row or raises.
\<close>

record ml_env =
  ml_available :: bool
  fit_predict :: "int \<Rightarrow> real list list \<Rightarrow> py_error + nat list"

definition usable :: "paper \<Rightarrow> bool" where
  "usable p = (case vector p of Val v \<Rightarrow> v \<noteq> [] | _ \<Rightarrow> False)"

definition vector_of :: "paper \<Rightarrow> real list" where
  "vector_of p = (case vector p of Val v \<Rightarrow> v | _ \<Rightarrow> [])"

text \<open>\<open>clusters[int(label)].append(valid[i])\<close> on a \<open>defaultdict(list)\<close>.\<close>

definition dict_append :: "('k \<times> 'a list) list \<Rightarrow> 'k \<Rightarrow> 'a \<Rightarrow> ('k \<times> 'a list) list" where
  "dict_append d k x = dict_set d k ((case map_of d k of None \<Rightarrow> [] | Some xs \<Rightarrow> xs) @ [x])"

definition clusters_of :: "nat list \<Rightarrow> 'a list \<Rightarrow> (nat \<times> 'a list) list" where
  "clusters_of labels valid = fold (\<lambda>(l, p) d. dict_append d l p) (zip labels valid) []"

function decimal :: "nat \<Rightarrow> ustr" where
  "decimal n = (if n < 10 then [48 + n] else decimal (n div 10) @ [48 + n mod 10])"
  by pat_completeness auto
termination
  by (relation "measure id") auto

fun join :: "ustr \<Rightarrow> ustr list \<Rightarrow> ustr" where
  "join sep [] = []"
| "join sep [x] = x"
| "join sep (x # y # ys) = x @ sep @ join sep (y # ys)"

text \<open>
  The topic name: the two most frequent keywords, each cut to 8 code points, joined by
  \<open>" / "\<close>; without keywords the two ideographs 20027 39064 (zhuti, "topic") followed
  by the label in decimal.
\<close>

definition topic_name_of :: "nat \<Rightarrow> paper list \<Rightarrow> ustr" where
  "topic_name_of label items =
     (let all_kw = concat (map kws_of items);
          top_k = most_common 3 (counter_update [] all_kw);
          parts = map (\<lambda>(k, c). truncate_name 8 k) (take 2 top_k)
      in if parts \<noteq> [] then join (ascii '' / '') parts else [20027, 39064] @ decimal label)"

record cluster =
  cluster_id :: nat
  topic_name :: ustr
  cluster_count :: nat
  paper_ids :: "ustr option list"

definition summary :: "nat \<times> paper list \<Rightarrow> cluster" where
  "summary c = (case c of (label, items) \<Rightarrow>
     \<lparr> cluster_id = label, topic_name = topic_name_of label items,
       cluster_count = length items,
       paper_ids = map (\<lambda>it. or_str (fget (paper_id it)) (fget (id_key it))) items \<rparr>)"

definition enriched :: "processor \<Rightarrow> store \<Rightarrow> nat list \<Rightarrow> paper list" where
  "enriched pr st ps =
     (let (st1, out) = enrich_papers pr st ps in map (\<lambda>a. papers st1 ! a) out)"

definition valid_papers :: "processor \<Rightarrow> store \<Rightarrow> nat list \<Rightarrow> paper list" where
  "valid_papers pr st ps = filter usable (enriched pr st ps)"

text \<open>
  \<open>perform_clustering\<close>. \<open>valid[i]\<close> inside \<open>enumerate(labels)\<close> raises when there are
  more labels than rows.
\<close>

definition perform_clustering ::
    "ml_env \<Rightarrow> processor \<Rightarrow> store \<Rightarrow> nat list \<Rightarrow> int \<Rightarrow> py_error + cluster list" where
  "perform_clustering ml pr st ps n_clusters =
     (if enriched pr st ps = [] then Inr []
      else if \<not> ml_available ml then Inr []
      else (let valid = valid_papers pr st ps;
                vectors = map vector_of valid
            in if vectors = [] then Inr []
               else (let n = min n_clusters (int (length vectors))
                     in case fit_predict ml n vectors of
                          Inl e \<Rightarrow> Inl e
                        | Inr labels \<Rightarrow>
                            if length labels > length valid then Inl IndexError
                            else Inr (map summary (sort_key fst (clusters_of labels valid))))))"

section \<open>Text: classes of code points, \<open>strip\<close>, \<open>lower\<close>, substring test\<close>

text \<open>
  \<open>is_space\<close> lists the code points for which \<open>str.isspace\<close> holds; \<open>strip\<close> and the
  pattern \<open>\s\<close> use it. The classification of digits (\<open>\d\<close>, \<open>int\<close>), of word
  characters (\<open>\w\<close>, behind \<open>\b\<close>) and the case mapping of \<open>lower\<close> follow Unicode on
  Basic Latin and on the CJK Unified Ideographs \<open>U+4E00..U+9FFF\<close>, the scripts the
  repository's patterns name; other code points count as symbols without case.
\<close>

definition is_space :: "nat \<Rightarrow> bool" where
  "is_space c = ((9 \<le> c \<and> c \<le> 13) \<or> (28 \<le> c \<and> c \<le> 32) \<or> c = 133 \<or> c = 160 \<or> c = 5760
     \<or> (8192 \<le> c \<and> c \<le> 8202) \<or> c = 8232 \<or> c = 8233 \<or> c = 8239 \<or> c = 8287 \<or> c = 12288)"

definition is_digit :: "nat \<Rightarrow> bool" where
  "is_digit c = (48 \<le> c \<and> c \<le> 57)"

definition is_latin :: "nat \<Rightarrow> bool" where
  "is_latin c = ((65 \<le> c \<and> c \<le> 90) \<or> (97 \<le> c \<and> c \<le> 122))"

definition is_cjk :: "nat \<Rightarrow> bool" where
  "is_cjk c = (19968 \<le> c \<and> c \<le> 40959)"

definition is_word :: "nat \<Rightarrow> bool" where
  "is_word c = (is_latin c \<or> is_digit c \<or> c = 95 \<or> is_cjk c)"

definition lower_char :: "nat \<Rightarrow> nat" where
  "lower_char c = (if 65 \<le> c \<and> c \<le> 90 then c + 32 else c)"

definition lower :: "ustr \<Rightarrow> ustr" where
  "lower s = map lower_char s"

definition strip :: "ustr \<Rightarrow> ustr" where
  "strip s = rev (dropWhile is_space (rev (dropWhile is_space s)))"

fun starts_with :: "ustr \<Rightarrow> ustr \<Rightarrow> bool" where
  "starts_with s [] = True"
| "starts_with [] (p # ps) = False"
| "starts_with (c # s) (p # ps) = (c = p \<and> starts_with s ps)"

text \<open>\<open>contains s p\<close> is Python's \<open>p in s\<close> on strings.\<close>

fun contains :: "ustr \<Rightarrow> ustr \<Rightarrow> bool" where
  "contains [] p = (p = [])"
| "contains (c # s) p = (starts_with (c # s) p \<or> contains s p)"

definition digits_value :: "ustr \<Rightarrow> int" where
  "digits_value s = fold (\<lambda>c n. 10 * n + (int c - 48)) s 0"

section \<open>Regular expressions as the query parser uses them\<close>

text \<open>
  The patterns of \<open>parse_query\<close> are built from character classes, concatenation,
  alternation, a greedy optional item, a greedy star over a class and the word boundary
  \<open>\b\<close>. \<open>rx_run r (prev, s)\<close> lists the ways \<open>r\<close> can match a prefix of \<open>s\<close>, each as
  the last consumed code point and the rest of the input, in the order in which the
  backtracking matcher of \<open>re\<close> tries them; the first is the match \<open>re\<close> reports.
\<close>

datatype rx = Eps | Cls "nat \<Rightarrow> bool" | Seq rx rx | Alt rx rx | Opt rx | Star "nat \<Rightarrow> bool" | Bnd

definition word_before :: "nat option \<Rightarrow> bool" where
  "word_before prev = (case prev of None \<Rightarrow> False | Some c \<Rightarrow> is_word c)"

definition word_after :: "ustr \<Rightarrow> bool" where
  "word_after s = (case s of [] \<Rightarrow> False | c # t \<Rightarrow> is_word c)"

fun rx_run :: "rx \<Rightarrow> nat option \<times> ustr \<Rightarrow> (nat option \<times> ustr) list" where
  "rx_run Eps s = [s]"
| "rx_run (Cls p) (prev, []) = []"
| "rx_run (Cls p) (prev, c # t) = (if p c then [(Some c, t)] else [])"
| "rx_run (Seq a b) s = concat (map (rx_run b) (rx_run a s))"
| "rx_run (Alt a b) s = rx_run a s @ rx_run b s"
| "rx_run (Opt a) s = rx_run a s @ [s]"
| "rx_run (Star p) (prev, []) = [(prev, [])]"
| "rx_run (Star p) (prev, c # t) =
     (if p c then rx_run (Star p) (Some c, t) @ [(prev, c # t)] else [(prev, c # t)])"
| "rx_run Bnd (prev, s) = (if word_before prev \<noteq> word_after s then [(prev, s)] else [])"

text \<open>The length of the match at the current position, when there is a non-empty one.\<close>

definition match_len :: "rx \<Rightarrow> nat option \<Rightarrow> ustr \<Rightarrow> nat option" where
  "match_len r prev s =
     (case rx_run r (prev, s) of
        [] \<Rightarrow> None
      | (p, rest) # _ \<Rightarrow> if length rest < length s then Some (length s - length rest) else None)"

text \<open>
  \<open>re.search\<close>: the leftmost match, as its start and its length. \<open>re.findall\<close> and
  \<open>re.sub\<close> scan for the successive non-overlapping matches; the last argument counts
  the code points of the current match still to be passed over. None of the patterns
  below matches the empty string.
\<close>

fun rx_search :: "rx \<Rightarrow> nat option \<Rightarrow> nat \<Rightarrow> ustr \<Rightarrow> (nat \<times> nat) option" where
  "rx_search r prev i [] = None"
| "rx_search r prev i (c # t) =
     (case match_len r prev (c # t) of
        Some n \<Rightarrow> Some (i, n)
      | None \<Rightarrow> rx_search r (Some c) (i + 1) t)"

fun rx_findall :: "rx \<Rightarrow> nat option \<Rightarrow> nat \<Rightarrow> ustr \<Rightarrow> ustr list" where
  "rx_findall r prev k [] = []"
| "rx_findall r prev k (c # t) =
     (if k > 0 then rx_findall r (Some c) (k - 1) t
      else (case match_len r prev (c # t) of
              Some n \<Rightarrow> take n (c # t) # rx_findall r (Some c) (n - 1) t
            | None \<Rightarrow> rx_findall r (Some c) 0 t))"

fun rx_sub :: "rx \<Rightarrow> ustr \<Rightarrow> nat option \<Rightarrow> nat \<Rightarrow> ustr \<Rightarrow> ustr" where
  "rx_sub r repl prev k [] = []"
| "rx_sub r repl prev k (c # t) =
     (if k > 0 then rx_sub r repl (Some c) (k - 1) t
      else (case match_len r prev (c # t) of
              Some n \<Rightarrow> repl @ rx_sub r repl (Some c) (n - 1) t
            | None \<Rightarrow> c # rx_sub r repl (Some c) 0 t))"

text \<open>
  A literal under \<open>re.I\<close>. The letters of the patterns are ASCII; besides the two ASCII
  cases, \<open>U+0130\<close> and \<open>U+0131\<close> match \<open>i\<close>, \<open>U+017F\<close> matches \<open>s\<close> and \<open>U+212A\<close>
  matches \<open>k\<close>.
\<close>

definition ci_char :: "nat \<Rightarrow> nat \<Rightarrow> bool" where
  "ci_char a c = (lower_char c = a \<or> (a = 105 \<and> (c = 304 \<or> c = 305))
     \<or> (a = 115 \<and> c = 383) \<or> (a = 107 \<and> c = 8490))"

fun lit :: "ustr \<Rightarrow> rx" where
  "lit [] = Eps"
| "lit (a # as) = Seq (Cls (ci_char a)) (lit as)"

definition spaces :: rx where
  "spaces = Star is_space"

definition year4 :: rx where
  "year4 = Seq (Alt (lit (ascii ''19'')) (lit (ascii ''20''))) (Seq (Cls is_digit) (Cls is_digit))"

datatype kind = Range | Start | End

text \<open>
  The five year patterns, in the order of \<open>year_patterns\<close>. The code points are
  8211 for the en dash \<open>U+2013\<close>; 33267 (zhi, "until") and 21040 (dao, "to"); 24180
  (nian, "year"); 33267 20170 (zhijin, "until now"); 20197 21518 (yihou, "afterwards");
  20174 (cong, "from"); 20043 21069 (zhiqian, "before"); 20197 21069 (yiqian, "before").
\<close>

definition year_patterns :: "(rx \<times> kind) list" where
  "year_patterns =
     [(Seq year4 (Seq spaces (Seq (Cls (\<lambda>c. c = 45 \<or> c = 8211 \<or> c = 33267 \<or> c = 21040))
          (Seq spaces year4))), Range),
      (Seq year4 (Seq spaces (Seq (lit [24180]) (Seq spaces
          (Alt (lit [33267, 20170]) (lit [20197, 21518]))))), Start),
      (Seq (Alt (lit (ascii ''after'')) (Alt (lit (ascii ''since'')) (lit [20174])))
          (Seq spaces year4), Start),
      (Seq (Alt (lit (ascii ''before'')) (lit [20043, 21069])) (Seq spaces year4), End),
      (Seq year4 (Seq spaces (Seq (Opt (lit [24180]))
          (Alt (lit [20197, 21069]) (lit [20043, 21069])))), End)]"

text \<open>
  The language markers under \<open>re.I\<close>, each between two word boundaries: 20013 25991
  (zhongwen), 27721 35821 (hanyu), \<open>china\<close>, \<open>chinese\<close>; and 33521 25991 (yingwen),
  33521 35821 (yingyu), \<open>english\<close>.
\<close>

definition zh_marker :: rx where
  "zh_marker = Seq Bnd (Seq (Alt (lit [20013, 25991]) (Alt (lit [27721, 35821])
     (Alt (lit (ascii ''china'')) (lit (ascii ''chinese''))))) Bnd)"

definition en_marker :: rx where
  "en_marker = Seq Bnd (Seq (Alt (lit [33521, 25991]) (Alt (lit [33521, 35821])
     (lit (ascii ''english'')))) Bnd)"

text \<open>
  The token pattern, without \<open>re.I\<close>: two or more of \<open>[a-zA-Z]\<close>, or one or more
  code points of \<open>U+4E00..U+9FFF\<close>.
\<close>

definition token_rx :: rx where
  "token_rx = Alt (Seq (Cls is_latin) (Seq (Cls is_latin) (Star is_latin)))
                  (Seq (Cls is_cjk) (Star is_cjk))"

text \<open>
  The stop words: sixteen Chinese function words (de, yu, he, ji, deng, zhi, zai, shi, you,
  wei, dui, cong, dao, guanyu, yanjiu, fenxi), given by their code points in the order of
  the source, and six English ones.
\<close>

definition stop :: "ustr list" where
  "stop = [[30340], [19982], [21644], [21450], [31561], [20043], [22312], [26159], [26377],
     [20026], [23545], [20174], [21040], [20851, 20110], [30740, 31350], [20998, 26512],
     ascii ''the'', ascii ''and'', ascii ''for'', ascii ''with'', ascii ''from'',
     ascii ''about'']"

section \<open>Query understanding\<close>

record ParsedQuery =
  topic_terms :: "ustr list"
  start_year :: "int option"
  end_year :: "int option"
  language :: "ustr option"
  journal_level :: "ustr option"
  raw_query :: ustr

text \<open>
  The state of the loop over \<open>year_patterns\<close>: \<open>remaining\<close>, \<open>start_year\<close> and
  \<open>end_year\<close>. \<open>min\<close> and \<open>max\<close> of the non-empty list \<open>nums\<close> are folds from its head.
\<close>

definition list_min :: "'a::linorder list \<Rightarrow> 'a" where
  "list_min ns = fold min (tl ns) (hd ns)"

definition list_max :: "'a::linorder list \<Rightarrow> 'a" where
  "list_max ns = fold max (tl ns) (hd ns)"

definition year_step ::
    "rx \<times> kind \<Rightarrow> ustr \<times> int option \<times> int option \<Rightarrow> ustr \<times> int option \<times> int option" where
  "year_step pk st =
     (case (pk, st) of ((pat, kind), (remaining, sy, ey)) \<Rightarrow>
        (case rx_search pat None 0 remaining of
           None \<Rightarrow> (remaining, sy, ey)
         | Some (i, n) \<Rightarrow>
             (let nums = map digits_value (rx_findall year4 None 0 (take n (drop i remaining)));
                  cut = take i remaining @ ascii '' '' @ drop (i + n) remaining
              in case kind of
                   Range \<Rightarrow> if length nums \<ge> 2 then (cut, Some (list_min nums), Some (list_max nums))
                            else (cut, sy, ey)
                 | Start \<Rightarrow> if nums \<noteq> [] then (cut, Some (list_max nums), ey) else (cut, sy, ey)
                 | End \<Rightarrow> if nums \<noteq> [] then (cut, sy, Some (list_min nums)) else (cut, sy, ey))))"

definition extract_years :: "ustr \<Rightarrow> ustr \<times> int option \<times> int option" where
  "extract_years raw = fold year_step year_patterns (raw, None, None)"

text \<open>
  Following the specification ("matched substring is removed from the text before
  further tokenization"): the text with the leftmost match of a pattern replaced by one
  space, and unchanged when the pattern does not match. The loop above is compared with
  it below.
\<close>

definition cut_first_match :: "rx \<Rightarrow> ustr \<Rightarrow> ustr" where
  "cut_first_match pat s =
     (case rx_search pat None 0 s of
        None \<Rightarrow> s
      | Some (i, n) \<Rightarrow> take i s @ ascii '' '' @ drop (i + n) s)"

definition extract_language :: "ustr \<Rightarrow> ustr \<times> ustr option" where
  "extract_language remaining =
     (if rx_search zh_marker None 0 remaining \<noteq> None
        then (rx_sub zh_marker (ascii '' '') None 0 remaining, Some (ascii ''zh''))
      else if rx_search en_marker None 0 remaining \<noteq> None
        then (rx_sub en_marker (ascii '' '') None 0 remaining, Some (ascii ''en''))
      else (remaining, None))"

definition query_tokens :: "ustr \<Rightarrow> ustr list" where
  "query_tokens raw =
     filter (\<lambda>t. t \<noteq> [] \<and> t \<notin> set stop)
       (rx_findall token_rx None 0 (fst (extract_language (fst (extract_years (strip raw))))))"

definition parse_query :: "ustr \<Rightarrow> ParsedQuery" where
  "parse_query raw0 =
     (let raw = strip raw0;
          (remaining, sy, ey) = extract_years raw;
          (remaining2, lang) = extract_language remaining;
          tokens = rx_findall token_rx None 0 remaining2;
          terms = filter (\<lambda>t. t \<noteq> [] \<and> t \<notin> set stop) tokens
      in \<lparr> topic_terms = (if terms = [] \<and> strip raw \<noteq> [] then [take 50 (strip raw)] else terms),
           start_year = sy, end_year = ey, language = lang, journal_level = None,
           raw_query = raw \<rparr>)"

section \<open>The metadata store\<close>

text \<open>
  A row of the table \<open>papers\<close>, with the columns the retrieval code reads (\<open>authors\<close>,
  \<open>field\<close> and \<open>pdf_path\<close> are carried along unread and are left out). A column value is
  \<open>NULL\<close>, an integer or a text. The table is keyed by its primary key \<open>paper_id\<close>.
\<close>

record row =
  r_title :: "ustr option"
  r_year :: "yearval option"
  r_journal :: "ustr option"
  r_abstract :: "ustr option"
  r_keywords :: "ustr option"
  r_source :: "ustr option"

fun split_on :: "nat \<Rightarrow> ustr \<Rightarrow> ustr list" where
  "split_on sep [] = [[]]"
| "split_on sep (c # s) =
     (if c = sep then [] # split_on sep s
      else (case split_on sep s of x # xs \<Rightarrow> (c # x) # xs | [] \<Rightarrow> [[c]]))"

text \<open>\<open>int(r[3]) if r[3] and str(r[3]).isdigit() else r[3]\<close>.\<close>

definition year_of_row :: "yearval option \<Rightarrow> yearval field" where
  "year_of_row y =
     (case y of
        None \<Rightarrow> Null
      | Some (YInt n) \<Rightarrow> Val (YInt n)
      | Some (YText s) \<Rightarrow>
          if s \<noteq> [] \<and> list_all is_digit s then Val (YInt (digits_value s)) else Val (YText s))"

definition row_to_dict :: "ustr \<Rightarrow> row \<Rightarrow> paper" where
  "row_to_dict pid r = empty_dict
     \<lparr> paper_id := Val pid,
       title := Val (str_or_empty (r_title r)),
       abstract := Val (str_or_empty (r_abstract r)),
       year := year_of_row (r_year r),
       journal := Val (str_or_empty (r_journal r)),
       source := Val (str_or_empty (r_source r)),
       keywords_f := Val (case r_keywords r of
                            None \<Rightarrow> []
                          | Some s \<Rightarrow> if s \<noteq> [] then split_on 44 s else []) \<rparr>"

text \<open>
  The collaborators of a search call: whether the keyword index and the vector index are
  there, the two search services, the table \<open>papers\<close> by key, the filtered scan
  \<open>search_sqlite\<close> of the no-backend path, and the column \<open>topic_id\<close> of
  \<open>paper_features\<close> by key. The services are external; their answers are taken as given.
\<close>

record backend =
  index_exists :: bool
  index_ready :: bool
  bm25_search :: "ustr \<Rightarrow> int option \<Rightarrow> int option \<Rightarrow> ustr option \<Rightarrow> int \<Rightarrow> (ustr \<times> real) list"
  vector_search :: "ustr \<Rightarrow> int \<Rightarrow> (ustr \<times> real) list"
  papers_table :: "ustr \<Rightarrow> row option"
  search_sqlite ::
    "ustr \<Rightarrow> int option \<Rightarrow> int option \<Rightarrow> ustr option \<Rightarrow> int \<Rightarrow> int \<Rightarrow> paper list \<times> nat"
  topic_ids :: "ustr \<Rightarrow> ustr option"

text \<open>\<open>fetch_papers_by_ids\<close>: a dictionary with an entry for each requested key that has a row.\<close>

definition fetch_papers_by_ids :: "backend \<Rightarrow> ustr list \<Rightarrow> ustr \<Rightarrow> paper option" where
  "fetch_papers_by_ids be ids =
     (\<lambda>pid. if pid \<in> set ids then map_option (row_to_dict pid) (papers_table be pid) else None)"

section \<open>Score fusion\<close>

record weights =
  w1 :: real
  w2 :: real
  w3 :: real
  w4 :: real
  title_bonus :: real

definition default_weights :: weights where
  "default_weights = \<lparr> w1 = 45 / 100, w2 = 25 / 100, w3 = 1 / 10, w4 = 1 / 10,
     title_bonus = 2 / 10 \<rparr>"

text \<open>\<open>md.get(key, "")\<close> on a string field.\<close>

definition get_default :: "ustr field \<Rightarrow> ustr option" where
  "get_default f = (case f of Absent \<Rightarrow> Some [] | Null \<Rightarrow> None | Val s \<Rightarrow> Some s)"

text \<open>
  \<open>_title_match_bonus\<close>. In the guard, \<open>(topic_terms or raw_query or "")\<close> is the list
  \<open>topic_terms\<close> itself when that list is not empty, and a list has no method \<open>strip\<close>:
  the call raises \<open>AttributeError\<close>. The guard is reached whenever the title is not empty.
\<close>

definition title_match_bonus :: "ustr option \<Rightarrow> ustr list option \<Rightarrow> ustr \<Rightarrow> py_error + real" where
  "title_match_bonus title_v terms raw =
     (if \<not> truthy_str title_v then Inr 0
      else (case (case terms of Some (t # ts) \<Rightarrow> Inl AttributeError | _ \<Rightarrow> Inr raw) of
              Inl e \<Rightarrow> Inl e
            | Inr s \<Rightarrow>
                if strip s = [] then Inr 0
                else (let title_lower = lower (strip (str_or_empty title_v));
                          q = strip raw
                      in if (case terms of
                               None \<Rightarrow> False
                             | Some ts \<Rightarrow>
                                 list_ex (\<lambda>t. t \<noteq> [] \<and> contains title_lower (lower (strip t))) ts)
                         then Inr 1
                         else if q \<noteq> [] \<and> contains title_lower (lower q) then Inr 1
                         else Inr 0)))"

text \<open>
  \<open>_journal_weight\<close>. The curated venues are 32463 27982 30740 31350 (Jingji Yanjiu),
  31649 29702 19990 30028 (Guanli Shijie) and three English titles; 23398 25253 is
  xuebao, "journal".
\<close>

definition high_venues :: "ustr list" where
  "high_venues = [[32463, 27982, 30740, 31350], [31649, 29702, 19990, 30028],
     ascii ''journal of finance'', ascii ''journal of political economy'',
     ascii ''american economic review'']"

definition journal_weight :: "ustr option \<Rightarrow> real" where
  "journal_weight journal_v =
     (if \<not> truthy_str journal_v then 0
      else (let j = lower (strip (str_or_empty journal_v))
            in if list_ex (\<lambda>h. contains j h) high_venues then 9 / 10
               else if contains j [23398, 25253] \<or> contains j (ascii ''journal'')
                       \<or> contains j (ascii ''review'') then 5 / 10
               else 2 / 10))"

definition user_pref_score :: "ustr \<Rightarrow> ustr list \<Rightarrow> real" where
  "user_pref_score text_v pref_terms =
     (if pref_terms = [] \<or> text_v = [] then 0
      else (let t = lower text_v;
                hits = length (filter (\<lambda>p. contains t (lower p)) pref_terms)
            in min 1 (real hits / real (max 1 (length pref_terms)) * (5 / 10) + 5 / 10)))"

text \<open>
  \<open>id_scores\<close>: a dictionary in insertion order from paper id to the raw signals
  \<open>bm25\<close> and \<open>vec\<close>, each present only if that backend returned the paper.
\<close>

type_synonym signals = "real option \<times> real option"

definition signals_of :: "(ustr \<times> signals) list \<Rightarrow> ustr \<Rightarrow> signals" where
  "signals_of ids pid = (case map_of ids pid of None \<Rightarrow> (None, None) | Some x \<Rightarrow> x)"

definition set_bm25 :: "ustr \<times> real \<Rightarrow> (ustr \<times> signals) list \<Rightarrow> (ustr \<times> signals) list" where
  "set_bm25 hit ids = (case hit of (pid, s) \<Rightarrow> dict_set ids pid (Some s, snd (signals_of ids pid)))"

definition set_vec :: "ustr \<times> real \<Rightarrow> (ustr \<times> signals) list \<Rightarrow> (ustr \<times> signals) list" where
  "set_vec hit ids = (case hit of (pid, s) \<Rightarrow> dict_set ids pid (fst (signals_of ids pid), Some s))"

definition id_scores_of :: "(ustr \<times> real) list \<Rightarrow> (ustr \<times> real) list \<Rightarrow> (ustr \<times> signals) list" where
  "id_scores_of bm25_hits vec_hits = fold set_vec vec_hits (fold set_bm25 bm25_hits [])"


text \<open>A raw signal of a candidate is a score that the backend returned for that paper.\<close>

definition sig_ok :: "(ustr \<times> real) list \<Rightarrow> (ustr \<times> real) list \<Rightarrow> ustr \<times> signals \<Rightarrow> bool" where
  "sig_ok B V c = (case c of (pid, (b, v)) \<Rightarrow>
     (\<forall>s. b = Some s \<longrightarrow> (pid, s) \<in> set B) \<and> (\<forall>s. v = Some s \<longrightarrow> (pid, s) \<in> set V))"

text \<open>\<open>max(s for _, s in hits) or 1.0\<close>, and 1.0 when there are no hits.\<close>

definition max_score :: "(ustr \<times> real) list \<Rightarrow> real" where
  "max_score hits =
     (if hits = [] then 1
      else (let m = list_max (map snd hits) in if m = 0 then 1 else m))"

text \<open>
  Python's \<open>int\<close> on a string: surrounding whitespace, an optional sign, then digits,
  where single underscores may separate digits.
\<close>

fun digit_groups :: "ustr \<Rightarrow> bool" where
  "digit_groups [] = False"
| "digit_groups [c] = is_digit c"
| "digit_groups (c # d # s) =
     (is_digit c \<and> (if d = 95 then digit_groups s else digit_groups (d # s)))"

definition py_int :: "ustr \<Rightarrow> int option" where
  "py_int s =
     (let t = strip s;
          neg = (t \<noteq> [] \<and> hd t = 45);
          body = (if t \<noteq> [] \<and> (hd t = 45 \<or> hd t = 43) then tl t else t)
      in if digit_groups body
         then Some ((if neg then - 1 else 1) * digits_value (filter (\<lambda>c. c \<noteq> 95) body))
         else None)"

text \<open>
  \<open>int(md.get("year") or 0)\<close>: a missing, \<open>None\<close>, zero or empty year counts as 0;
  \<open>None\<close> here stands for the \<open>ValueError\<close> that the loop answers with \<open>continue\<close>.
\<close>

definition year_or_zero :: "paper \<Rightarrow> int option" where
  "year_or_zero md =
     (case fget (year md) of
        None \<Rightarrow> Some 0
      | Some (YInt n) \<Rightarrow> Some n
      | Some (YText s) \<Rightarrow> if s = [] then Some 0 else py_int s)"

definition passes_filters :: "paper \<Rightarrow> int option \<Rightarrow> int option \<Rightarrow> ustr option \<Rightarrow> bool" where
  "passes_filters md sy ey src =
     ((case sy of None \<Rightarrow> True
        | Some s \<Rightarrow> (case year_or_zero md of None \<Rightarrow> False | Some y \<Rightarrow> \<not> y < s))
      \<and> (case ey of None \<Rightarrow> True
        | Some e \<Rightarrow> (case year_or_zero md of None \<Rightarrow> False | Some y \<Rightarrow> \<not> y > e))
      \<and> \<not> (truthy_str src \<and> str_or_empty (fget (source md)) \<noteq> str_or_empty src))"

definition md_of :: "(ustr \<Rightarrow> paper option) \<Rightarrow> ustr \<Rightarrow> paper" where
  "md_of meta pid = (case meta pid of None \<Rightarrow> empty_dict | Some d \<Rightarrow> d)"

definition signal :: "real option \<Rightarrow> real" where
  "signal x = (case x of None \<Rightarrow> 0 | Some s \<Rightarrow> s)"

definition fused_score ::
    "weights \<Rightarrow> real \<Rightarrow> real \<Rightarrow> ustr list \<Rightarrow> ustr list option \<Rightarrow> ustr \<Rightarrow> paper \<Rightarrow> signals
       \<Rightarrow> py_error + real" where
  "fused_score w max_bm25 max_vec pref terms q md scores =
     (let bm = signal (fst scores) / max_bm25;
          vc = signal (snd scores) / max_vec;
          jw = journal_weight (get_default (journal md));
          up = user_pref_score (str_or_empty (get_default (title md)) @ ascii '' ''
                                  @ str_or_empty (get_default (abstract md))) pref
      in case title_match_bonus (get_default (title md)) terms q of
           Inl e \<Rightarrow> Inl e
         | Inr tb \<Rightarrow> Inr (w1 w * bm + w2 w * vc + w3 w * jw + w4 w * up + title_bonus w * tb))"

text \<open>
  The loop that builds \<open>combined\<close>: a candidate that fails a filter is skipped, an
  exception ends the call.
\<close>

fun collect :: "('a \<Rightarrow> py_error + 'b option) \<Rightarrow> 'a list \<Rightarrow> py_error + 'b list" where
  "collect f [] = Inr []"
| "collect f (x # xs) =
     (case f x of
        Inl e \<Rightarrow> Inl e
      | Inr None \<Rightarrow> collect f xs
      | Inr (Some y) \<Rightarrow> (case collect f xs of Inl e \<Rightarrow> Inl e | Inr ys \<Rightarrow> Inr (y # ys)))"

definition score_candidate ::
    "(ustr \<Rightarrow> paper option) \<Rightarrow> int option \<Rightarrow> int option \<Rightarrow> ustr option \<Rightarrow> weights \<Rightarrow> real \<Rightarrow> real
       \<Rightarrow> ustr list \<Rightarrow> ustr list option \<Rightarrow> ustr \<Rightarrow> ustr \<times> signals \<Rightarrow> py_error + (ustr \<times> real) option" where
  "score_candidate meta sy ey src w max_bm25 max_vec pref terms q c =
     (case c of (pid, scores) \<Rightarrow>
        if \<not> passes_filters (md_of meta pid) sy ey src then Inr None
        else (case fused_score w max_bm25 max_vec pref terms q (md_of meta pid) scores of
                Inl e \<Rightarrow> Inl e
              | Inr s \<Rightarrow> Inr (Some (pid, s))))"

text \<open>Python's slice \<open>xs[a:b]\<close>, with negative bounds counted from the end.\<close>

definition slice_index :: "nat \<Rightarrow> int \<Rightarrow> nat" where
  "slice_index n i = (if i < 0 then nat (max 0 (int n + i)) else min (nat i) n)"

definition py_slice :: "'a list \<Rightarrow> int \<Rightarrow> int \<Rightarrow> 'a list" where
  "py_slice xs a b =
     take (slice_index (length xs) b - slice_index (length xs) a)
       (drop (slice_index (length xs) a) xs)"

section \<open>Hybrid search\<close>

definition bm25_hits ::
    "backend \<Rightarrow> ustr \<Rightarrow> int option \<Rightarrow> int option \<Rightarrow> ustr option \<Rightarrow> int \<Rightarrow> (ustr \<times> real) list" where
  "bm25_hits be q sy ey src limit =
     (if index_exists be then bm25_search be q sy ey src (limit * 2) else [])"

definition vec_hits :: "backend \<Rightarrow> ustr \<Rightarrow> int \<Rightarrow> (ustr \<times> real) list" where
  "vec_hits be q limit =
     (if index_ready be \<and> strip q \<noteq> [] then vector_search be q (limit * 2) else [])"

definition candidates ::
    "backend \<Rightarrow> ustr \<Rightarrow> int option \<Rightarrow> int option \<Rightarrow> ustr option \<Rightarrow> int \<Rightarrow> (ustr \<times> signals) list" where
  "candidates be q sy ey src limit =
     id_scores_of (bm25_hits be q sy ey src limit) (vec_hits be q limit)"

text \<open>\<open>scored\<close> is the list \<open>combined\<close> before the sort, \<open>combined\<close> the list after it.\<close>

definition scored ::
    "backend \<Rightarrow> ustr \<Rightarrow> int option \<Rightarrow> int option \<Rightarrow> ustr option \<Rightarrow> int \<Rightarrow> weights \<Rightarrow> ustr list
       \<Rightarrow> ustr list option \<Rightarrow> py_error + (ustr \<times> real) list" where
  "scored be q sy ey src limit w pref terms =
     (let ids = candidates be q sy ey src limit
      in collect (score_candidate (fetch_papers_by_ids be (map fst ids)) sy ey src w
                    (max_score (bm25_hits be q sy ey src limit)) (max_score (vec_hits be q limit))
                    pref terms q) ids)"

definition combined ::
    "backend \<Rightarrow> ustr \<Rightarrow> int option \<Rightarrow> int option \<Rightarrow> ustr option \<Rightarrow> int \<Rightarrow> weights \<Rightarrow> ustr list
       \<Rightarrow> ustr list option \<Rightarrow> py_error + (ustr \<times> real) list" where
  "combined be q sy ey src limit w pref terms =
     (case scored be q sy ey src limit w pref terms of
        Inl e \<Rightarrow> Inl e
      | Inr cs \<Rightarrow> Inr (sort_desc snd cs))"

text \<open>
  The page: the ids in the window, and for each one that has metadata a copy of its
  dictionary with its score.
\<close>

definition page_ids :: "(ustr \<times> real) list \<Rightarrow> int \<Rightarrow> int \<Rightarrow> ustr list" where
  "page_ids cs offset limit = map fst (py_slice cs offset (offset + limit))"

definition page_results ::
    "(ustr \<Rightarrow> paper option) \<Rightarrow> (ustr \<times> real) list \<Rightarrow> ustr list \<Rightarrow> paper list" where
  "page_results meta cs pids =
     concat (map (\<lambda>pid. case meta pid of
                          None \<Rightarrow> []
                        | Some d \<Rightarrow> [d\<lparr>score := Val (case map_of cs pid of
                                                       None \<Rightarrow> 0 | Some s \<Rightarrow> s)\<rparr>]) pids)"

definition hybrid_search ::
    "backend \<Rightarrow> ustr \<Rightarrow> int option \<Rightarrow> int option \<Rightarrow> ustr option \<Rightarrow> int \<Rightarrow> int \<Rightarrow> weights
       \<Rightarrow> ustr list \<Rightarrow> ustr list option \<Rightarrow> py_error + (paper list \<times> nat)" where
  "hybrid_search be q sy ey src limit offset w pref terms =
     (if (index_exists be \<or> index_ready be) \<and> candidates be q sy ey src limit \<noteq> []
      then (case combined be q sy ey src limit w pref terms of
              Inl e \<Rightarrow> Inl e
            | Inr cs \<Rightarrow>
                Inr (page_results
                       (fetch_papers_by_ids be (map fst (candidates be q sy ey src limit)))
                       cs (page_ids cs offset limit),
                     length cs))
      else Inr (search_sqlite be q sy ey src limit offset))"

section \<open>Search with distributions\<close>








section \<open>Example inputs\<close>

text \<open>A processor whose models are unavailable, and small stores, used to run the model.\<close>

definition stub_processor :: processor where
  "stub_processor = \<lparr> extract_keywords = (\<lambda>t n. []), get_embedding = (\<lambda>t. None),
     classify_attitude = (\<lambda>t. ascii ''neutral'') \<rparr>"

definition dup_store :: store where
  "dup_store = \<lparr> papers = [empty_dict\<lparr> paper_id := Val (ascii ''p1''),
       keywords_f := Val [ascii ''ai'', ascii ''ai''] \<rparr>], feats = [] \<rparr>"

definition ab_store :: store where
  "ab_store = \<lparr> papers = [empty_dict\<lparr> paper_id := Val (ascii ''p1''),
       keywords_f := Val [ascii ''b'', ascii ''a''] \<rparr>], feats = [] \<rparr>"

definition feat_store :: store where
  "feat_store = \<lparr> papers = [empty_dict\<lparr> paper_id := Val (ascii ''p1''),
       keywords_f := Val [ascii ''ai''], vector := Val [1], features := Val 0,
       attitude_label := Val (ascii ''critical'') \<rparr>],
     feats = [[(''attitude'', Val (ascii ''optimistic''))]] \<rparr>"

text \<open>
  A partition that deals the rows to the clusters in turn; with one cluster every row gets
  label 0, as with \<open>KMeans\<close>.
\<close>

definition round_robin_ml :: ml_env where
  "round_robin_ml = \<lparr> ml_available = True,
     fit_predict = (\<lambda>n X. if n < 1 \<or> int (length X) < n then Inl ValueError
                           else Inr (map (\<lambda>i. i mod nat n) [0..<length X])) \<rparr>"

text \<open>Three papers, the last without an embedding.\<close>

definition mixed_store :: store where
  "mixed_store = \<lparr> papers =
       [empty_dict\<lparr> paper_id := Val (ascii ''p1''), keywords_f := Val [ascii ''ai''],
                    vector := Val [1] \<rparr>,
        empty_dict\<lparr> paper_id := Val (ascii ''p2''), keywords_f := Val [ascii ''law''],
                    vector := Val [2] \<rparr>,
        empty_dict\<lparr> paper_id := Val (ascii ''p3''), keywords_f := Val [ascii ''tax''] \<rparr>],
     feats = [] \<rparr>"

text \<open>
  A table of three papers: \<open>a\<close> from 2019, \<open>b\<close> from 2020, and \<open>c\<close>, whose title
  holds the word \<open>ai\<close> and whose year is \<open>NULL\<close>. A keyword backend and a vector backend
  that answer every query with the first \<open>size\<close> of a given list of hits.
\<close>

definition demo_row :: "string \<Rightarrow> yearval option \<Rightarrow> row" where
  "demo_row t y = \<lparr> r_title = Some (ascii t), r_year = y,
     r_journal = None, r_abstract = None, r_keywords = None, r_source = None \<rparr>"

definition demo_table :: "ustr \<Rightarrow> row option" where
  "demo_table pid =
     (if pid = ascii ''a'' then Some (demo_row ''alpha'' (Some (YText (ascii ''2019''))))
      else if pid = ascii ''b'' then Some (demo_row ''beta'' (Some (YText (ascii ''2020''))))
      else if pid = ascii ''c'' then Some (demo_row ''ai law'' None)
      else None)"

definition es_backend :: "(ustr \<times> real) list \<Rightarrow> backend" where
  "es_backend hits = \<lparr> index_exists = True, index_ready = False,
     bm25_search = (\<lambda>q sy ey src size. take (nat size) hits),
     vector_search = (\<lambda>q k. []),
     papers_table = demo_table,
     search_sqlite = (\<lambda>q sy ey src limit offset. ([], 0)),
     topic_ids = (\<lambda>pid. None) \<rparr>"

definition vec_backend :: "(ustr \<times> real) list \<Rightarrow> backend" where
  "vec_backend hits = \<lparr> index_exists = False, index_ready = True,
     bm25_search = (\<lambda>q sy ey src size. []),
     vector_search = (\<lambda>q k. take (nat k) hits),
     papers_table = demo_table,
     search_sqlite = (\<lambda>q sy ey src limit offset. ([], 0)),
     topic_ids = (\<lambda>pid. None) \<rparr>"


text \<open>The ids and scores of a returned page, with the total.\<close>

definition page_summary ::
    "py_error + paper list \<times> nat \<Rightarrow> py_error + (ustr field \<times> real field) list \<times> nat" where
  "page_summary r =
     (case r of Inl e \<Rightarrow> Inl e
      | Inr (rs, t) \<Rightarrow> Inr (map (\<lambda>d. (paper_id d, score d)) rs, t))"


section \<open>Properties of the co-occurrence network\<close>

lemma dict_set_keys_map: "set (map fst (dict_set d k v)) = insert k (set (map fst d))"
proof (induction d)
  case Nil
  show ?case by simp
next
  case (Cons a d)
  obtain k' v' where a: "a = (k', v')" by (cases a)
  show ?case
  proof (cases "k' = k")
    case True
    then show ?thesis by (simp add: a)
  next
    case False
    have "set (map fst (dict_set (a # d) k v)) = insert k' (set (map fst (dict_set d k v)))"
      using False by (simp add: a)
    also have "\<dots> = insert k' (insert k (set (map fst d)))"
      by (simp only: Cons.IH)
    finally show ?thesis by (auto simp: a)
  qed
qed

lemma dict_set_keys: "fst ` set (dict_set d k v) = insert k (fst ` set d)"
  using dict_set_keys_map [of d k v] by simp

lemma dict_set_distinct: "distinct (map fst d) \<Longrightarrow> distinct (map fst (dict_set d k v))"
proof (induction d)
  case Nil then show ?case by simp
next
  case (Cons a d)
  have "fst ` set (dict_set d k v) = insert k (fst ` set d)" by (rule dict_set_keys)
  with Cons show ?case by (cases a) auto
qed

lemma map_of_dict_set: "map_of (dict_set d k v) = (map_of d)(k \<mapsto> v)"
  by (induction d) (auto simp: fun_eq_iff)

lemma counter_get_Nil: "counter_get [] k = 0"
  by (simp add: counter_get_def)

lemma counter_get_inc:
  "counter_get (counter_inc c k) k' = counter_get c k' + (if k' = k then 1 else 0)"
  by (simp add: counter_get_def counter_inc_def map_of_dict_set)

lemma counter_inc_keys: "fst ` set (counter_inc c k) = insert k (fst ` set c)"
  by (simp add: counter_inc_def dict_set_keys)

lemma counter_inc_distinct: "distinct (map fst c) \<Longrightarrow> distinct (map fst (counter_inc c k))"
  by (simp add: counter_inc_def dict_set_distinct)

lemma counter_get_distinct:
  "distinct (map fst c) \<Longrightarrow> (k, n) \<in> set c \<Longrightarrow> counter_get c k = n"
  by (simp add: counter_get_def)

lemma fold_inc_keys:
  "fst ` set (fold (\<lambda>x c. counter_inc c (g x)) xs c) = fst ` set c \<union> g ` set xs"
  by (induction xs arbitrary: c) (auto simp: counter_inc_keys)

lemma fold_inc_distinct:
  "distinct (map fst c) \<Longrightarrow> distinct (map fst (fold (\<lambda>x c. counter_inc c (g x)) xs c))"
  by (induction xs arbitrary: c) (auto simp: counter_inc_distinct)

lemma fold_inc_get:
  "counter_get (fold (\<lambda>x c. counter_inc c (g x)) xs c) k
     = counter_get c k + length (filter (\<lambda>x. g x = k) xs)"
  by (induction xs arbitrary: c) (auto simp: counter_get_inc)

lemma count_pairs_flat:
  "count_pairs kwss
     = fold (\<lambda>pr c. counter_inc c (sorted_pair pr)) (concat (map pairs_of kwss)) []"
proof -
  have "fold (\<lambda>kws pc. fold (\<lambda>pr c. counter_inc c (sorted_pair pr)) (pairs_of kws) pc) kwss c
      = fold (\<lambda>pr c. counter_inc c (sorted_pair pr)) (concat (map pairs_of kwss)) c" for c
    by (induction kwss arbitrary: c) auto
  then show ?thesis by (simp add: count_pairs_def)
qed

lemma pairs_of_diag: "(a, a) \<in> set (pairs_of xs) \<Longrightarrow> \<not> distinct xs"
  by (induction xs) auto

lemma sorted_pair_le: "sorted_pair p = (u, v) \<Longrightarrow> u \<le> v"
  by (auto simp: sorted_pair_def split: prod.splits if_splits)

lemma sorted_pair_diag: "sorted_pair p = (u, u) \<longleftrightarrow> p = (u, u)"
  by (auto simp: sorted_pair_def split: prod.splits if_splits)

lemma sorted_pair_eq_iff: "u < v \<Longrightarrow> sorted_pair p = (u, v) \<longleftrightarrow> p = (u, v) \<or> p = (v, u)"
  by (auto simp: sorted_pair_def split: prod.splits if_splits)

lemma count_pairs_keys:
  "fst ` set (count_pairs kwss) = sorted_pair ` (\<Union>kws \<in> set kwss. set (pairs_of kws))"
  by (simp add: count_pairs_flat fold_inc_keys)

lemma count_pairs_distinct: "distinct (map fst (count_pairs kwss))"
  by (simp add: count_pairs_flat fold_inc_distinct)

lemma count_pairs_get:
  "counter_get (count_pairs kwss) k
     = length (filter (\<lambda>pr. sorted_pair pr = k) (concat (map pairs_of kwss)))"
  by (simp add: count_pairs_flat fold_inc_get counter_get_Nil)

lemma links_build:
  "links (snd (build_cooccurrence_network pr st ps mw))
     = cooccurrence_links (enriched_keywords pr st ps) mw"
  by (simp add: build_cooccurrence_network_def)

lemma link_in_counts:
  "(u, v, w) \<in> set (cooccurrence_links kwss mw) \<Longrightarrow> ((u, v), w) \<in> set (count_pairs kwss)"
  by (auto simp: cooccurrence_links_def kept_pairs_def)

text \<open>
  Claim C7, as the code has it. Every edge of the network is stored under the sorted pair
  of its endpoints, so \<open>(a, b)\<close> and \<open>(b, a)\<close> are one edge whose weight counts the
  position pairs in either order, and the reversed pair is never a second edge. An edge
  joins two different keywords provided no enriched keyword list contains a duplicate;
  the code pairs distinct positions, not distinct keywords.
\<close>

theorem cooccurrence_edges:
  assumes "(u, v, w) \<in> set (links (snd (build_cooccurrence_network pr st ps mw)))"
  shows "u \<le> v
     \<and> w = length (filter (\<lambda>pr. pr = (u, v) \<or> pr = (v, u))
                    (concat (map pairs_of (enriched_keywords pr st ps))))
     \<and> (\<forall>w'. (v, u, w') \<in> set (links (snd (build_cooccurrence_network pr st ps mw)))
             \<longrightarrow> v = u)
     \<and> ((\<forall>kws \<in> set (enriched_keywords pr st ps). distinct kws) \<longrightarrow> u \<noteq> v)"
proof -
  let ?K = "enriched_keywords pr st ps"
  from assms have C: "((u, v), w) \<in> set (count_pairs ?K)"
    by (simp add: links_build link_in_counts)
  then have "(u, v) \<in> fst ` set (count_pairs ?K)" by force
  then obtain kws p where kp: "kws \<in> set ?K" "p \<in> set (pairs_of kws)" "sorted_pair p = (u, v)"
    by (auto simp: count_pairs_keys)
  have uv: "u \<le> v" using kp(3) by (rule sorted_pair_le)
  have w: "w = length (filter (\<lambda>pr. sorted_pair pr = (u, v)) (concat (map pairs_of ?K)))"
    using counter_get_distinct [OF count_pairs_distinct C] by (simp add: count_pairs_get)
  have cnt: "w = length (filter (\<lambda>pr. pr = (u, v) \<or> pr = (v, u)) (concat (map pairs_of ?K)))"
  proof (cases "u = v")
    case True
    with w show ?thesis by (simp add: sorted_pair_diag)
  next
    case False
    with uv have "u < v" by simp
    then show ?thesis using w by (simp add: sorted_pair_eq_iff)
  qed
  have rev: "v = u" if "(v, u, w') \<in> set (links (snd (build_cooccurrence_network pr st ps mw)))"
    for w'
  proof -
    from that have "((v, u), w') \<in> set (count_pairs ?K)"
      by (simp add: links_build link_in_counts)
    then have "(v, u) \<in> fst ` set (count_pairs ?K)" by force
    then obtain q where "sorted_pair q = (v, u)" by (auto simp: count_pairs_keys)
    then have "v \<le> u" by (rule sorted_pair_le)
    with uv show ?thesis by simp
  qed
  have loop: "u \<noteq> v" if D: "\<forall>kws \<in> set ?K. distinct kws"
  proof
    assume "u = v"
    with kp(3) have "p = (v, v)" by (simp add: sorted_pair_diag)
    with kp(2) have "\<not> distinct kws" by (auto dest: pairs_of_diag)
    with D kp(1) show False by blast
  qed
  from uv cnt rev loop show ?thesis by blast
qed

lemma ab_store_links:
  "links (snd (build_cooccurrence_network stub_processor ab_store [0] 1))
     = [(ascii ''a'', ascii ''b'', 1)]"
  unfolding links_build by code_simp

lemma ab_store_keywords:
  "enriched_keywords stub_processor ab_store [0] = [[ascii ''b'', ascii ''a'']]"
  by code_simp

theorem cooccurrence_edges_witness:
  "(ascii ''a'', ascii ''b'', 1)
       \<in> set (links (snd (build_cooccurrence_network stub_processor ab_store [0] 1)))
   \<and> enriched_keywords stub_processor ab_store [0] = [[ascii ''b'', ascii ''a'']]
   \<and> distinct [ascii ''b'', ascii ''a'']
   \<and> ascii ''a'' \<le> ascii ''b'' \<and> ascii ''a'' \<noteq> ascii ''b''"
proof -
  have L: "(ascii ''a'', ascii ''b'', 1)
       \<in> set (links (snd (build_cooccurrence_network stub_processor ab_store [0] 1)))"
    by (simp add: ab_store_links)
  have D: "distinct [ascii ''b'', ascii ''a'']"
    by (simp add: ascii_def)
  then have "\<forall>kws \<in> set (enriched_keywords stub_processor ab_store [0]). distinct kws"
    by (simp add: ab_store_keywords)
  with cooccurrence_edges [OF L] L D ab_store_keywords show ?thesis by blast
qed

text \<open>
  Claim C7 as stated fails: a paper whose keyword list repeats a keyword yields an edge
  from that keyword to itself.
\<close>

theorem cooccurrence_self_loop_counterexample:
  "links (snd (build_cooccurrence_network stub_processor dup_store [0] 1))
     = [(ascii ''ai'', ascii ''ai'', 1)]"
  unfolding links_build by code_simp

section \<open>Effects of enrichment on the caller's records\<close>

lemma enrich_keywords_frame:
  assumes "enrich_keywords pr t a (st, p) = (st', p')"
  shows "\<exists>xs. papers st' = papers st @ xs" and "feats st' = feats st"
  using assms
  by (auto simp: enrich_keywords_def dict_copy_def set_paper_def Let_def split: if_splits)

lemma enrich_vector_frame:
  assumes "enrich_vector pr t a (st, p) = (st', p')"
  shows "\<exists>xs. papers st' = papers st @ xs" and "feats st' = feats st"
  using assms
  by (auto simp: enrich_vector_def dict_copy_def set_paper_def Let_def split: if_splits)

lemma enrich_features_frame:
  assumes "enrich_features pr t a (st, p) = (st', p')"
  shows "\<exists>xs. papers st' = papers st @ xs" and "p' = length (papers st)"
    and "length (papers st) < length (papers st')"
  using assms
  by (auto simp: enrich_features_def dict_copy_def set_paper_def set_feat_def new_feats_def
      Let_def split: if_splits)

lemma enrich_paper_frame:
  assumes "enrich_paper pr st p = (st', r)"
  shows "take (length (papers st)) (papers st') = papers st"
    and "length (papers st) \<le> length (papers st')"
proof -
  let ?t = "str_or_empty (fget (title (papers st ! p)))"
  let ?a = "str_or_empty (fget (abstract (papers st ! p)))"
  obtain st1 p1 where s1: "enrich_keywords pr ?t ?a (st, p) = (st1, p1)" by force
  obtain st2 p2 where s2: "enrich_vector pr ?t ?a (st1, p1) = (st2, p2)" by force
  obtain st3 p3 where s3: "enrich_features pr ?t ?a (st2, p2) = (st3, p3)" by force
  from enrich_keywords_frame(1) [OF s1] obtain xs where x: "papers st1 = papers st @ xs" ..
  from enrich_vector_frame(1) [OF s2] obtain ys where y: "papers st2 = papers st1 @ ys" ..
  from enrich_features_frame(1) [OF s3] obtain zs where z: "papers st3 = papers st2 @ zs" ..
  have p3: "p3 = length (papers st2)" by (rule enrich_features_frame(2) [OF s3])
  have eq: "st' = st \<or> st' = set_paper st3 p3 (\<lambda>d. d\<lparr>id_key := to_field
      (or_str (fget (paper_id (papers st ! p))) (fget (id_key (papers st ! p))))\<rparr>)"
    using assms s1 s2 s3 by (auto simp: enrich_paper_def Let_def split: if_splits)
  have len: "length (papers st) \<le> p3" using x y p3 by simp
  have "take (length (papers st)) (papers (set_paper st3 p3 f)) = papers st" for f
    using len x y z by (simp add: set_paper_def)
  moreover have "length (papers st) \<le> length (papers (set_paper st3 p3 f))" for f
    using x y z by (simp add: set_paper_def)
  ultimately show "take (length (papers st)) (papers st') = papers st"
    and "length (papers st) \<le> length (papers st')"
    using eq by auto
qed

text \<open>
  The dictionaries of the caller's papers themselves are left as they were: every write
  to a paper goes to a copy made by \<open>dict(p)\<close>.
\<close>

lemma enrich_papers_frame:
  "take (length (papers st)) (papers (fst (enrich_papers pr st ps))) = papers st
     \<and> length (papers st) \<le> length (papers (fst (enrich_papers pr st ps)))"
proof (induction ps arbitrary: st)
  case Nil
  show ?case by simp
next
  case (Cons p ps)
  obtain st1 r where e: "enrich_paper pr st p = (st1, r)" by force
  obtain st2 out where r: "enrich_papers pr st1 ps = (st2, out)" by force
  from Cons [of st1] r
  have ih: "take (length (papers st1)) (papers st2) = papers st1"
    and le: "length (papers st1) \<le> length (papers st2)" by simp_all
  have f1: "take (length (papers st)) (papers st1) = papers st"
    and l1: "length (papers st) \<le> length (papers st1)"
    using enrich_paper_frame [OF e] by simp_all
  have "take (length (papers st)) (papers st2)
      = take (length (papers st)) (take (length (papers st1)) (papers st2))"
    using l1 by (simp add: min_def)
  with ih f1 have "take (length (papers st)) (papers st2) = papers st" by simp
  with l1 le e r show ?case by simp
qed

lemmas enrich_eval = enrich_paper_def enrich_keywords_def enrich_vector_def
  enrich_features_def stub_processor_def empty_dict_def or_str_def str_or_empty_def
  no_keywords_def no_vector_def no_features_def dict_copy_def set_paper_def new_feats_def
  set_feat_def feat_get_def to_field_def kws_of_def ascii_def Let_def

text \<open>
  Claim C8 at a failing input. The caller holds one paper whose \<open>features\<close> dictionary
  is \<open>{"attitude": "optimistic"}\<close> and whose \<open>attitude_label\<close> is \<open>"critical"\<close>.
  The copy \<open>dict(p)\<close> is shallow, so the write \<open>p["features"]["attitude"] = ...\<close> lands
  in the caller's own nested dictionary, which ends as
  \<open>{"attitude": "critical", "methods_label": ""}\<close>.
\<close>

theorem enrich_mutates_caller_features:
  "feats feat_store ! 0 = [(''attitude'', Val (ascii ''optimistic''))]
   \<and> features (papers feat_store ! 0) = Val 0
   \<and> feats (fst (enrich_papers stub_processor feat_store [0])) ! 0
       = [(''attitude'', Val (ascii ''critical'')), (''methods_label'', Val [])]
   \<and> feats (fst (build_cooccurrence_network stub_processor feat_store [0] 1)) ! 0
       = [(''attitude'', Val (ascii ''critical'')), (''methods_label'', Val [])]"
  by (simp add: build_cooccurrence_network_def enrich_eval feat_store_def)

section \<open>Properties of clustering\<close>

lemma dict_append_keys: "fst ` set (dict_append d k x) = insert k (fst ` set d)"
  by (simp add: dict_append_def dict_set_keys)

lemma dict_append_distinct: "distinct (map fst d) \<Longrightarrow> distinct (map fst (dict_append d k x))"
  by (simp add: dict_append_def dict_set_distinct)

lemma dict_set_total:
  "sum_list (map (length \<circ> snd) (dict_set d k v))
       + length (case map_of d k of None \<Rightarrow> [] | Some xs \<Rightarrow> xs)
     = sum_list (map (length \<circ> snd) d) + length v"
  by (induction d) auto

lemma dict_append_total:
  "sum_list (map (length \<circ> snd) (dict_append d k x)) = Suc (sum_list (map (length \<circ> snd) d))"
  using dict_set_total [of d k "(case map_of d k of None \<Rightarrow> [] | Some xs \<Rightarrow> xs) @ [x]"]
  by (simp add: dict_append_def)

lemma fold_append_keys:
  "fst ` set (fold (\<lambda>(l, p) d. dict_append d l p) zs d) = fst ` set d \<union> fst ` set zs"
proof (induction zs arbitrary: d)
  case Nil
  show ?case by simp
next
  case (Cons z zs)
  obtain l p where z: "z = (l, p)" by (cases z)
  have "fst ` set (fold (\<lambda>(l, p) d. dict_append d l p) (z # zs) d)
      = fst ` set (dict_append d l p) \<union> fst ` set zs"
    using Cons.IH [of "dict_append d l p"] by (simp add: z)
  also have "\<dots> = insert l (fst ` set d) \<union> fst ` set zs"
    by (simp only: dict_append_keys)
  finally show ?case by (simp add: z)
qed

lemma fold_append_distinct:
  "distinct (map fst d) \<Longrightarrow> distinct (map fst (fold (\<lambda>(l, p) d. dict_append d l p) zs d))"
  by (induction zs arbitrary: d) (auto simp: dict_append_distinct)

lemma fold_append_total:
  "sum_list (map (length \<circ> snd) (fold (\<lambda>(l, p) d. dict_append d l p) zs d))
     = sum_list (map (length \<circ> snd) d) + length zs"
  by (induction zs arbitrary: d) (auto simp: dict_append_total)

lemma clusters_of_keys:
  "length labels \<le> length valid \<Longrightarrow> fst ` set (clusters_of labels valid) = set labels"
proof -
  assume "length labels \<le> length valid"
  then have "map fst (zip labels valid) = labels"
    by (simp add: map_fst_zip_take min_def)
  then have "fst ` set (zip labels valid) = set labels"
    by (metis set_map)
  then show ?thesis by (simp add: clusters_of_def fold_append_keys)
qed

lemma clusters_of_distinct: "distinct (map fst (clusters_of labels valid))"
  by (simp add: clusters_of_def fold_append_distinct)

lemma clusters_of_total:
  "sum_list (map (length \<circ> snd) (clusters_of labels valid)) = min (length labels) (length valid)"
  by (simp add: clusters_of_def fold_append_total)

lemma clusters_of_length:
  assumes "length labels \<le> length valid"
  shows "length (clusters_of labels valid) = card (set labels)"
proof -
  have "length (clusters_of labels valid) = length (map fst (clusters_of labels valid))" by simp
  also have "\<dots> = card (set (map fst (clusters_of labels valid)))"
    using clusters_of_distinct by (metis distinct_card)
  also have "\<dots> = card (set labels)"
    using clusters_of_keys [OF assms] by simp
  finally show ?thesis .
qed

lemma sum_list_insort_key:
  "sum_list (map f (insort_key g x xs)) = f x + sum_list (map f xs)"
  for f :: "'a \<Rightarrow> nat"
  by (induction xs) auto

lemma sum_list_sort_key: "sum_list (map f (sort_key g xs)) = sum_list (map f xs)"
  for f :: "'a \<Rightarrow> nat"
  by (induction xs) (auto simp: sum_list_insort_key)

lemma cluster_count_summary: "cluster_count (summary c) = length (snd c)"
  by (cases c) (simp add: summary_def)

lemma card_labels_le:
  assumes "\<forall>l \<in> set labels. int l < n"
  shows "int (card (set labels)) \<le> n \<or> labels = []"
proof (cases "labels = []")
  case True then show ?thesis by simp
next
  case False
  then obtain l where "l \<in> set labels" by (cases labels) auto
  with assms have "0 < n" by fastforce
  have "set labels \<subseteq> {..<nat n}" using assms by auto
  then have "card (set labels) \<le> card {..<nat n}" by (intro card_mono) auto
  then have "card (set labels) \<le> nat n" by simp
  with \<open>0 < n\<close> show ?thesis by linarith
qed

lemmas clustering_eval = perform_clustering_def valid_papers_def enriched_def usable_def
  vector_of_def clusters_of_def dict_append_def summary_def topic_name_of_def most_common_def
  sort_desc_def counter_update_def counter_inc_def counter_get_def truncate_name_def
  round_robin_ml_def

lemma dict_set_members:
  "set v = insert x (set (case map_of d k of None \<Rightarrow> [] | Some xs \<Rightarrow> xs))
     \<Longrightarrow> (\<Union>c \<in> set (dict_set d k v). set (snd c)) = insert x (\<Union>c \<in> set d. set (snd c))"
proof (induction d)
  case Nil
  then show ?case by simp
next
  case (Cons a d)
  obtain k' v' where a: "a = (k', v')" by (cases a)
  show ?case
  proof (cases "k' = k")
    case True
    with Cons.prems a have "set v = insert x (set v')" by simp
    with True a show ?thesis by auto
  next
    case False
    with Cons.prems a
    have "set v = insert x (set (case map_of d k of None \<Rightarrow> [] | Some xs \<Rightarrow> xs))" by simp
    from Cons.IH [OF this] False a show ?thesis by auto
  qed
qed

lemma dict_append_members:
  "(\<Union>c \<in> set (dict_append d k x). set (snd c)) = insert x (\<Union>c \<in> set d. set (snd c))"
  unfolding dict_append_def by (rule dict_set_members) simp

lemma fold_append_members:
  "(\<Union>c \<in> set (fold (\<lambda>(l, p) d. dict_append d l p) zs d). set (snd c))
     = (\<Union>c \<in> set d. set (snd c)) \<union> snd ` set zs"
proof (induction zs arbitrary: d)
  case Nil
  show ?case by simp
next
  case (Cons z zs)
  obtain l p where z: "z = (l, p)" by (cases z)
  have "(\<Union>c \<in> set (fold (\<lambda>(l, p) d. dict_append d l p) (z # zs) d). set (snd c))
      = (\<Union>c \<in> set (dict_append d l p). set (snd c)) \<union> snd ` set zs"
    using Cons.IH [of "dict_append d l p"] by (simp add: z)
  also have "\<dots> = insert p (\<Union>c \<in> set d. set (snd c)) \<union> snd ` set zs"
    by (simp only: dict_append_members)
  finally show ?case by (simp add: z)
qed

lemma clusters_of_members:
  assumes "length labels = length valid"
  shows "(\<Union>c \<in> set (clusters_of labels valid). set (snd c)) = set valid"
proof -
  from assms have "map snd (zip labels valid) = valid" by simp
  then have "snd ` set (zip labels valid) = set valid" by (metis set_map)
  then show ?thesis by (simp add: clusters_of_def fold_append_members)
qed

lemma paper_ids_summary:
  "paper_ids (summary c) = map (\<lambda>it. or_str (fget (paper_id it)) (fget (id_key it))) (snd c)"
  by (cases c) (simp add: summary_def)

lemma summaries_members:
  "set (concat (map paper_ids (map summary G)))
     = (\<lambda>it. or_str (fget (paper_id it)) (fget (id_key it))) ` (\<Union>c \<in> set G. set (snd c))"
  by (induction G) (auto simp: paper_ids_summary)

lemma usable_iff: "usable p = (\<exists>v. vector p = Val v \<and> v \<noteq> [])"
  by (cases "vector p") (simp_all add: usable_def)

lemma round_robin_two: "fit_predict round_robin_ml 2 [[1], [2]] = Inr [0, 1]"
  by (simp add: round_robin_ml_def upt_rec)

lemma mixed_enriched_len: "length (enriched stub_processor mixed_store [0, 1, 2]) = 3"
  by (simp add: clustering_eval enrich_eval mixed_store_def)

lemma mixed_valid_len:
  "length (filter usable (enriched stub_processor mixed_store [0, 1, 2])) = 2"
  by (simp add: clustering_eval enrich_eval mixed_store_def)

lemma mixed_valid_vec:
  "map vector_of (filter usable (enriched stub_processor mixed_store [0, 1, 2])) = [[1], [2]]"
  by (simp add: clustering_eval enrich_eval mixed_store_def)

lemma mixed_valid_ids:
  "map (\<lambda>it. or_str (fget (paper_id it)) (fget (id_key it)))
     (filter usable (enriched stub_processor mixed_store [0, 1, 2]))
     = [Some (ascii ''p1''), Some (ascii ''p2'')]"
  by (simp add: clustering_eval enrich_eval mixed_store_def)

text \<open>
  Claim C6, as the code has it. The papers that take part are the enriched papers whose
  vector is present and not empty. The only cluster count the call asks the partitioning
  for is \<open>min(k, number of these papers)\<close>. Without such a paper, or without the ML
  libraries, the call returns the empty list. With at least one, and a partitioning that
  returns one label below that count per paper, the call returns between one and that
  many clusters, which together hold exactly these papers; there is no test for a count
  below 2.
\<close>

theorem perform_clustering_count:
  fixes ml pr st ps k labels
  defines "valid \<equiv> filter usable (enriched pr st ps)"
  shows "(\<forall>p. usable p = (\<exists>v. vector p = Val v \<and> v \<noteq> []))
     \<and> (valid = [] \<or> \<not> ml_available ml \<longrightarrow> perform_clustering ml pr st ps k = Inr [])
     \<and> (valid \<noteq> [] \<and> ml_available ml
          \<and> fit_predict ml (min k (int (length valid))) (map vector_of valid) = Inr labels
          \<and> length labels = length valid
          \<and> (\<forall>l \<in> set labels. int l < min k (int (length valid)))
        \<longrightarrow> (\<exists>cs. perform_clustering ml pr st ps k = Inr cs \<and> cs \<noteq> []
               \<and> int (length cs) \<le> min k (int (length valid))
               \<and> sum_list (map cluster_count cs) = length valid
               \<and> set (concat (map paper_ids cs))
                   = set (map (\<lambda>it. or_str (fget (paper_id it)) (fget (id_key it))) valid)))"
proof (intro conjI impI)
  show "\<forall>p. usable p = (\<exists>v. vector p = Val v \<and> v \<noteq> [])"
    using usable_iff by blast
next
  assume "valid = [] \<or> \<not> ml_available ml"
  then show "perform_clustering ml pr st ps k = Inr []"
    by (auto simp: perform_clustering_def valid_papers_def valid_def Let_def)
next
  assume A: "valid \<noteq> [] \<and> ml_available ml
          \<and> fit_predict ml (min k (int (length valid))) (map vector_of valid) = Inr labels
          \<and> length labels = length valid
          \<and> (\<forall>l \<in> set labels. int l < min k (int (length valid)))"
  let ?G = "clusters_of labels valid"
  let ?cs = "map summary (sort_key fst ?G)"
  have vp: "valid_papers pr st ps = valid" by (simp add: valid_papers_def valid_def)
  from A have ne: "enriched pr st ps \<noteq> []" by (auto simp: valid_def)
  from A ne have run: "perform_clustering ml pr st ps k = Inr ?cs"
    by (simp add: perform_clustering_def vp Let_def)
  from A have len: "length labels \<le> length valid" and lne: "labels \<noteq> []" by auto
  have n: "length ?cs = card (set labels)"
    by (simp add: clusters_of_length [OF len])
  from lne have "card (set labels) \<noteq> 0" by simp
  with n have "length ?cs \<noteq> 0" by simp
  then have c1: "?cs \<noteq> []" by (metis list.size(3))
  from A have "\<forall>l \<in> set labels. int l < min k (int (length valid))" by blast
  from card_labels_le [OF this] lne
  have "int (card (set labels)) \<le> min k (int (length valid))" by blast
  moreover have "length ?cs = card (set labels)" by (rule n)
  ultimately have c2: "int (length ?cs) \<le> min k (int (length valid))" by (simp only:)
  have "sum_list (map cluster_count ?cs) = sum_list (map (length \<circ> snd) (sort_key fst ?G))"
    by (simp add: comp_def cluster_count_summary)
  also have "\<dots> = sum_list (map (length \<circ> snd) ?G)" by (rule sum_list_sort_key)
  also have "\<dots> = length valid" using A by (simp add: clusters_of_total)
  finally have c3: "sum_list (map cluster_count ?cs) = length valid" .
  from A have eq: "length labels = length valid" by blast
  have "set (concat (map paper_ids ?cs))
      = (\<lambda>it. or_str (fget (paper_id it)) (fget (id_key it)))
          ` (\<Union>c \<in> set (sort_key fst ?G). set (snd c))"
    by (rule summaries_members)
  also have "\<dots> = (\<lambda>it. or_str (fget (paper_id it)) (fget (id_key it))) ` set valid"
    using clusters_of_members [OF eq] by simp
  finally have c4: "set (concat (map paper_ids ?cs))
      = set (map (\<lambda>it. or_str (fget (paper_id it)) (fget (id_key it))) valid)"
    by simp
  from run c1 c2 c3 c4
  show "\<exists>cs. perform_clustering ml pr st ps k = Inr cs \<and> cs \<noteq> []
               \<and> int (length cs) \<le> min k (int (length valid))
               \<and> sum_list (map cluster_count cs) = length valid
               \<and> set (concat (map paper_ids cs))
                   = set (map (\<lambda>it. or_str (fget (paper_id it)) (fget (id_key it))) valid)"
    by (intro exI [of _ ?cs] conjI)
qed

theorem perform_clustering_count_witness:
  "length (enriched stub_processor mixed_store [0, 1, 2]) = 3
   \<and> length (filter usable (enriched stub_processor mixed_store [0, 1, 2])) = 2
   \<and> ml_available round_robin_ml
   \<and> fit_predict round_robin_ml
        (min 5 (int (length (filter usable (enriched stub_processor mixed_store [0, 1, 2])))))
        (map vector_of (filter usable (enriched stub_processor mixed_store [0, 1, 2])))
       = Inr [0, 1]
   \<and> (\<exists>cs. perform_clustering round_robin_ml stub_processor mixed_store [0, 1, 2] 5 = Inr cs
          \<and> cs \<noteq> [] \<and> int (length cs) \<le> 2 \<and> sum_list (map cluster_count cs) = 2
          \<and> set (concat (map paper_ids cs)) = {Some (ascii ''p1''), Some (ascii ''p2'')})"
proof -
  let ?valid = "filter usable (enriched stub_processor mixed_store [0, 1, 2])"
  have a: "?valid \<noteq> []" using mixed_valid_len by auto
  have b: "ml_available round_robin_ml" by (simp add: round_robin_ml_def)
  have c: "fit_predict round_robin_ml (min 5 (int (length ?valid))) (map vector_of ?valid)
      = Inr [0, 1]"
    by (simp only: mixed_valid_len mixed_valid_vec) (simp add: round_robin_two)
  have d: "length [0::nat, 1] = length ?valid"
    by (simp only: mixed_valid_len) simp
  have e: "\<forall>l \<in> set [0::nat, 1]. int l < min 5 (int (length ?valid))"
    by (simp only: mixed_valid_len) simp
  note th = perform_clustering_count [where ml = round_robin_ml and pr = stub_processor
      and st = mixed_store and ps = "[0, 1, 2]" and k = 5 and labels = "[0, 1]"]
  from a b c d e have hyp: "?valid \<noteq> [] \<and> ml_available round_robin_ml
          \<and> fit_predict round_robin_ml (min 5 (int (length ?valid))) (map vector_of ?valid)
              = Inr [0, 1]
          \<and> length [0::nat, 1] = length ?valid
          \<and> (\<forall>l \<in> set [0::nat, 1]. int l < min 5 (int (length ?valid)))"
    by (intro conjI)
  from th [THEN conjunct2, THEN conjunct2, THEN mp, OF hyp]
  have "\<exists>cs. perform_clustering round_robin_ml stub_processor mixed_store [0, 1, 2] 5 = Inr cs
          \<and> cs \<noteq> [] \<and> int (length cs) \<le> min 5 (int (length ?valid))
          \<and> sum_list (map cluster_count cs) = length ?valid
          \<and> set (concat (map paper_ids cs))
              = set (map (\<lambda>it. or_str (fget (paper_id it)) (fget (id_key it))) ?valid)" .
  then have "\<exists>cs. perform_clustering round_robin_ml stub_processor mixed_store [0, 1, 2] 5 = Inr cs
          \<and> cs \<noteq> [] \<and> int (length cs) \<le> 2 \<and> sum_list (map cluster_count cs) = 2
          \<and> set (concat (map paper_ids cs)) = {Some (ascii ''p1''), Some (ascii ''p2'')}"
    by (simp only: mixed_valid_len mixed_valid_ids) simp
  with mixed_enriched_len mixed_valid_len b c show ?thesis by (intro conjI)
qed


text \<open>
  Claim C6 as stated fails: with one usable paper and \<open>k = 5\<close> the effective count is 1,
  below 2, and the call returns one cluster, not the empty list.
\<close>

theorem perform_clustering_single_counterexample:
  "min 5 (int (length (filter usable (enriched stub_processor feat_store [0])))) = 1
   \<and> perform_clustering round_robin_ml stub_processor feat_store [0] 5
     = Inr [\<lparr> cluster_id = 0, topic_name = ascii ''ai'', cluster_count = 1,
              paper_ids = [Some (ascii ''p1'')] \<rparr>]"
  by (simp add: clustering_eval enrich_eval feat_store_def upt_rec)

section \<open>Properties of query understanding\<close>

lemma rx_run_Star:
  "(q, rest) \<in> set (rx_run (Star p) (prev, s)) \<Longrightarrow> \<exists>m. s = m @ rest \<and> (\<forall>c \<in> set m. p c)"
proof (induction s arbitrary: prev)
  case Nil
  then show ?case by simp
next
  case (Cons c t)
  show ?case
  proof (cases "p c")
    case False
    with Cons.prems show ?thesis by simp
  next
    case True
    with Cons.prems have "(q, rest) \<in> set (rx_run (Star p) (Some c, t)) \<or> rest = c # t"
      by auto
    then show ?thesis
    proof
      assume "(q, rest) \<in> set (rx_run (Star p) (Some c, t))"
      from Cons.IH [OF this] obtain m where "t = m @ rest" "\<forall>c \<in> set m. p c" by blast
      with True have "c # t = (c # m) @ rest \<and> (\<forall>x \<in> set (c # m). p x)" by simp
      then show ?thesis by blast
    next
      assume "rest = c # t"
      then have "c # t = [] @ rest \<and> (\<forall>x \<in> set []. p x)" by simp
      then show ?thesis by blast
    qed
  qed
qed

lemma rx_run_Cls:
  "(q, rest) \<in> set (rx_run (Cls p) (prev, s)) \<Longrightarrow> \<exists>c. s = c # rest \<and> p c \<and> q = Some c"
  by (cases s) (auto split: if_splits)

lemma rx_run_plus:
  assumes "(q, rest) \<in> set (rx_run (Seq (Cls p) (Star p)) (prev, s))"
  shows "\<exists>m. s = m @ rest \<and> (\<forall>c \<in> set m. p c)"
proof -
  from assms obtain q1 r1 where a: "(q1, r1) \<in> set (rx_run (Cls p) (prev, s))"
    and b: "(q, rest) \<in> set (rx_run (Star p) (q1, r1))" by auto
  from rx_run_Cls [OF a] obtain c where c: "s = c # r1" "p c" by blast
  from rx_run_Star [OF b] obtain m where m: "r1 = m @ rest" "\<forall>c \<in> set m. p c" by blast
  from c m have "s = (c # m) @ rest \<and> (\<forall>x \<in> set (c # m). p x)" by simp
  then show ?thesis by blast
qed

lemma rx_run_two_plus:
  assumes "(q, rest) \<in> set (rx_run (Seq (Cls p) (Seq (Cls p) (Star p))) (prev, s))"
  shows "\<exists>m. s = m @ rest \<and> (\<forall>c \<in> set m. p c)"
proof -
  from assms obtain q1 r1 where a: "(q1, r1) \<in> set (rx_run (Cls p) (prev, s))"
    and b: "(q, rest) \<in> set (rx_run (Seq (Cls p) (Star p)) (q1, r1))" by auto
  from rx_run_Cls [OF a] obtain c where c: "s = c # r1" "p c" by blast
  from rx_run_plus [OF b] obtain m where m: "r1 = m @ rest" "\<forall>c \<in> set m. p c" by blast
  from c m have "s = (c # m) @ rest \<and> (\<forall>x \<in> set (c # m). p x)" by simp
  then show ?thesis by blast
qed

lemma token_rx_match:
  assumes "(q, rest) \<in> set (rx_run token_rx (prev, s))"
  shows "\<exists>m. s = m @ rest \<and> (\<forall>c \<in> set m. is_latin c \<or> is_cjk c)"
proof -
  from assms have "(q, rest) \<in> set (rx_run (Seq (Cls is_latin) (Seq (Cls is_latin) (Star is_latin))) (prev, s))
     \<or> (q, rest) \<in> set (rx_run (Seq (Cls is_cjk) (Star is_cjk)) (prev, s))"
    by (simp add: token_rx_def del: rx_run.simps(4)) 
  then show ?thesis
  proof
    assume "(q, rest) \<in> set (rx_run (Seq (Cls is_latin) (Seq (Cls is_latin) (Star is_latin))) (prev, s))"
    from rx_run_two_plus [OF this] show ?thesis by blast
  next
    assume "(q, rest) \<in> set (rx_run (Seq (Cls is_cjk) (Star is_cjk)) (prev, s))"
    from rx_run_plus [OF this] show ?thesis by blast
  qed
qed

lemma match_len_token:
  assumes "match_len token_rx prev s = Some n"
  shows "\<forall>c \<in> set (take n s). is_latin c \<or> is_cjk c"
proof -
  from assms obtain q rest xs where r: "rx_run token_rx (prev, s) = (q, rest) # xs"
    and n: "n = length s - length rest"
    by (auto simp: match_len_def split: list.splits if_splits)
  from r have "(q, rest) \<in> set (rx_run token_rx (prev, s))" by simp
  from token_rx_match [OF this] obtain m where m: "s = m @ rest" "\<forall>c \<in> set m. is_latin c \<or> is_cjk c"
    by blast
  from m(1) n have "take n s = m" by simp
  with m(2) show ?thesis by simp
qed

lemma findall_token:
  "t \<in> set (rx_findall token_rx prev k s) \<Longrightarrow> \<forall>c \<in> set t. is_latin c \<or> is_cjk c"
proof (induction s arbitrary: prev k)
  case Nil
  then show ?case by simp
next
  case (Cons c s)
  show ?case
  proof (cases "k > 0")
    case True
    with Cons.prems have "t \<in> set (rx_findall token_rx (Some c) (k - 1) s)" by simp
    then show ?thesis by (rule Cons.IH)
  next
    case False
    show ?thesis
    proof (cases "match_len token_rx prev (c # s)")
      case None
      with False Cons.prems have "t \<in> set (rx_findall token_rx (Some c) 0 s)" by simp
      then show ?thesis by (rule Cons.IH)
    next
      case (Some n)
      with False Cons.prems
      have "t = take n (c # s) \<or> t \<in> set (rx_findall token_rx (Some c) (n - 1) s)" by simp
      then show ?thesis
      proof
        assume "t = take n (c # s)"
        with match_len_token [OF Some] show ?thesis by simp
      next
        assume "t \<in> set (rx_findall token_rx (Some c) (n - 1) s)"
        then show ?thesis by (rule Cons.IH)
      qed
    qed
  qed
qed

lemma letter_not_digit: "is_latin c \<or> is_cjk c \<Longrightarrow> \<not> is_digit c"
  by (auto simp: is_latin_def is_cjk_def is_digit_def)

lemma query_tokens_letters:
  "t \<in> set (query_tokens raw) \<Longrightarrow> \<forall>c \<in> set t. is_latin c \<or> is_cjk c"
  by (auto simp: query_tokens_def dest: findall_token)

lemma dropWhile_fixed: "xs = [] \<or> \<not> P (hd xs) \<Longrightarrow> dropWhile P xs = xs"
  by (cases xs) auto

lemma strip_strip: "strip (strip s) = strip s"
proof -
  let ?d = "dropWhile is_space s"
  let ?e = "dropWhile is_space (rev ?d)"
  have e: "?e = [] \<or> \<not> is_space (hd ?e)" by (metis hd_dropWhile)
  have d: "?d = [] \<or> \<not> is_space (hd ?d)" by (metis hd_dropWhile)
  have "rev ?e = [] \<or> \<not> is_space (hd (rev ?e))"
  proof (cases "?e = []")
    case True then show ?thesis by simp
  next
    case False
    then obtain k where "rev ?d = k @ ?e" by (metis takeWhile_dropWhile_id)
    then have "?d = rev ?e @ rev k" by (metis rev_append rev_rev_ident)
    with False have "hd ?d = hd (rev ?e)" by (metis hd_append2 rev_is_Nil_conv)
    with d False show ?thesis by (metis dropWhile.simps(1) rev.simps(1))
  qed
  then have 1: "dropWhile is_space (rev ?e) = rev ?e" by (rule dropWhile_fixed)
  have 2: "dropWhile is_space ?e = ?e" using e by (rule dropWhile_fixed)
  show ?thesis by (simp add: strip_def 1 2)
qed

lemma parse_query_topic_terms:
  "topic_terms (parse_query raw)
     = (if query_tokens raw = [] \<and> strip raw \<noteq> [] then [take 50 (strip raw)] else query_tokens raw)"
  by (simp add: parse_query_def query_tokens_def Let_def strip_strip split: prod.splits)

lemma year_step_cut: "fst (year_step (pat, kind) (rem, sy, ey)) = cut_first_match pat rem"
  by (simp add: year_step_def cut_first_match_def Let_def split: option.splits kind.splits prod.splits)

lemma fold_year_step_cut:
  "fst (fold year_step ps (rem, sy, ey)) = fold cut_first_match (map fst ps) rem"
proof (induction ps arbitrary: rem sy ey)
  case Nil
  show ?case by simp
next
  case (Cons p ps)
  obtain pat kind where p: "p = (pat, kind)" by (cases p)
  obtain rem1 sy1 ey1 where st: "year_step (pat, kind) (rem, sy, ey) = (rem1, sy1, ey1)"
    by (cases "year_step (pat, kind) (rem, sy, ey)") auto
  from year_step_cut [of pat kind rem sy ey] st have "rem1 = cut_first_match pat rem" by simp
  with Cons.IH [of rem1 sy1 ey1] p st show ?case by simp
qed

lemma extract_years_cut:
  "fst (extract_years s) = fold cut_first_match (map fst year_patterns) s"
  by (simp add: extract_years_def fold_year_step_cut)

lemma match_len_bounds: "match_len r prev s = Some n \<Longrightarrow> 0 < n \<and> n \<le> length s"
  by (auto simp: match_len_def split: list.splits if_splits)

lemma rx_search_bounds:
  "rx_search r prev i s = Some (j, n) \<Longrightarrow> i \<le> j \<and> 0 < n \<and> (j - i) + n \<le> length s"
proof (induction s arbitrary: prev i)
  case Nil
  then show ?case by simp
next
  case (Cons c s)
  show ?case
  proof (cases "match_len r prev (c # s)")
    case (Some m)
    with Cons.prems have "j = i" "n = m" by simp_all
    with match_len_bounds [OF Some] show ?thesis by simp
  next
    case None
    with Cons.prems have "rx_search r (Some c) (i + 1) s = Some (j, n)" by simp
    from Cons.IH [OF this] show ?thesis by auto
  qed
qed

lemma cut_first_match_span:
  assumes "rx_search pat None 0 s = Some (i, n)"
  shows "\<exists>a m b. s = a @ m @ b \<and> length a = i \<and> length m = n \<and> m \<noteq> []
           \<and> cut_first_match pat s = a @ ascii '' '' @ b"
proof -
  from rx_search_bounds [OF assms] have b: "0 < n" "i + n \<le> length s" by simp_all
  let ?a = "take i s" and ?m = "take n (drop i s)" and ?b = "drop (i + n) s"
  have "s = ?a @ ?m @ ?b"
    by (metis append_take_drop_id drop_drop add.commute)
  moreover have "length ?a = i" using b by simp
  moreover have "length ?m = n" using b by simp
  moreover from this b(1) have "?m \<noteq> []" by auto
  moreover have "cut_first_match pat s = ?a @ ascii '' '' @ ?b"
    using assms by (simp add: cut_first_match_def)
  ultimately show ?thesis by blast
qed

lemma findall_substring:
  "t \<in> set (rx_findall r prev k s) \<Longrightarrow> \<exists>a b. s = a @ t @ b"
proof (induction s arbitrary: prev k)
  case Nil
  then show ?case by simp
next
  case (Cons c s)
  have tail: "\<exists>a b. c # s = a @ t @ b" if "t \<in> set (rx_findall r p j s)" for p j
  proof -
    from Cons.IH [OF that] obtain a b where "s = a @ t @ b" by blast
    then have "c # s = (c # a) @ t @ b" by simp
    then show ?thesis by blast
  qed
  show ?case
  proof (cases "k > 0")
    case True
    with Cons.prems have "t \<in> set (rx_findall r (Some c) (k - 1) s)" by simp
    then show ?thesis by (rule tail)
  next
    case False
    show ?thesis
    proof (cases "match_len r prev (c # s)")
      case None
      with False Cons.prems have "t \<in> set (rx_findall r (Some c) 0 s)" by simp
      then show ?thesis by (rule tail)
    next
      case (Some n)
      with False Cons.prems
      have "t = take n (c # s) \<or> t \<in> set (rx_findall r (Some c) (n - 1) s)" by simp
      then show ?thesis
      proof
        assume "t = take n (c # s)"
        then have "c # s = [] @ t @ drop n (c # s)" by simp
        then show ?thesis by blast
      next
        assume "t \<in> set (rx_findall r (Some c) (n - 1) s)"
        then show ?thesis by (rule tail)
      qed
    qed
  qed
qed

lemma query_tokens_substring:
  assumes "t \<in> set (query_tokens raw)"
  shows "\<exists>a b. fst (extract_language (fold cut_first_match (map fst year_patterns) (strip raw)))
           = a @ t @ b"
proof -
  from assms have "t \<in> set (rx_findall token_rx None 0
      (fst (extract_language (fst (extract_years (strip raw))))))"
    by (simp add: query_tokens_def)
  then show ?thesis unfolding extract_years_cut by (rule findall_substring)
qed

lemmas query_eval = parse_query_def query_tokens_def extract_years_def year_step_def
  year_patterns_def year4_def spaces_def ci_char_def lower_char_def is_digit_def is_space_def
  match_len_def digits_value_def list_min_def list_max_def extract_language_def zh_marker_def
  en_marker_def token_rx_def stop_def strip_def ascii_def word_before_def word_after_def
  is_word_def is_latin_def is_cjk_def Let_def

text \<open>
  The scenario of the specification: a four-ideograph topic followed by \<open>2018-2023\<close>
  gives the year range and the topic alone as term.
\<close>

lemma parse_query_scenario:
  "parse_query ([25968, 23383, 27835, 29702] @ ascii '' 2018-2023'')
     = \<lparr> topic_terms = [[25968, 23383, 27835, 29702]], start_year = Some 2018,
         end_year = Some 2023, language = None, journal_level = None,
         raw_query = [25968, 23383, 27835, 29702] @ ascii '' 2018-2023'' \<rparr>"
  by (simp add: query_eval)

lemma query_tokens_scenario:
  "query_tokens ([25968, 23383, 27835, 29702] @ ascii '' 2018-2023'')
     = [[25968, 23383, 27835, 29702]]"
  by (simp add: query_eval)

lemma since_parse:
  "parse_query (ascii ''AI since 2018'')
     = \<lparr> topic_terms = [ascii ''AI''], start_year = Some 2018, end_year = None,
         language = None, journal_level = None, raw_query = ascii ''AI since 2018'' \<rparr>"
  by (simp add: query_eval)

lemma since_tokens: "query_tokens (ascii ''AI since 2018'') = [ascii ''AI'']"
  by (simp add: query_eval)

lemma since_years:
  "fst (extract_years (strip (ascii ''AI since 2018''))) = ascii ''AI  ''"
  by (simp add: query_eval)

text \<open>
  Claim C9, as the code has it. For each year pattern in turn, the leftmost match in
  the text is replaced by one space, whatever the kind of the pattern; further matches of
  the same pattern stay. The tokens are runs of Latin letters or of CJK ideographs found
  in the text left after these cuts and after the language markers are taken out. When at
  least one token survives the stop words, the topic terms are these tokens: no term
  holds a digit, so no year appears among them. When none survives, the only term is the
  trimmed input itself, cut to 50 code points, with whatever year phrase it holds.
\<close>

theorem parse_query_terms:
  "fst (extract_years (strip raw)) = fold cut_first_match (map fst year_patterns) (strip raw)
   \<and> (\<forall>pat s i n. rx_search pat None 0 s = Some (i, n) \<longrightarrow>
         (\<exists>a m b. s = a @ m @ b \<and> length a = i \<and> length m = n \<and> m \<noteq> []
            \<and> cut_first_match pat s = a @ ascii '' '' @ b))
   \<and> (\<forall>t \<in> set (query_tokens raw).
         \<exists>a b. fst (extract_language (fold cut_first_match (map fst year_patterns) (strip raw)))
                 = a @ t @ b)
   \<and> ((query_tokens raw \<noteq> [] \<and> topic_terms (parse_query raw) = query_tokens raw
          \<and> (\<forall>t \<in> set (topic_terms (parse_query raw)).
                \<forall>c \<in> set t. (is_latin c \<or> is_cjk c) \<and> \<not> is_digit c))
       \<or> (query_tokens raw = []
          \<and> topic_terms (parse_query raw) = (if strip raw = [] then [] else [take 50 (strip raw)])))"
proof -
  have a: "fst (extract_years (strip raw))
      = fold cut_first_match (map fst year_patterns) (strip raw)"
    by (rule extract_years_cut)
  have b: "\<forall>pat s i n. rx_search pat None 0 s = Some (i, n) \<longrightarrow>
         (\<exists>a m b. s = a @ m @ b \<and> length a = i \<and> length m = n \<and> m \<noteq> []
            \<and> cut_first_match pat s = a @ ascii '' '' @ b)"
    using cut_first_match_span by blast
  have c: "\<forall>t \<in> set (query_tokens raw).
         \<exists>a b. fst (extract_language (fold cut_first_match (map fst year_patterns) (strip raw)))
                 = a @ t @ b"
    using query_tokens_substring by blast
  have d: "(query_tokens raw \<noteq> [] \<and> topic_terms (parse_query raw) = query_tokens raw
          \<and> (\<forall>t \<in> set (topic_terms (parse_query raw)).
                \<forall>c \<in> set t. (is_latin c \<or> is_cjk c) \<and> \<not> is_digit c))
       \<or> (query_tokens raw = []
          \<and> topic_terms (parse_query raw) = (if strip raw = [] then [] else [take 50 (strip raw)]))"
  proof (cases "query_tokens raw = []")
    case True
    then show ?thesis by (simp add: parse_query_topic_terms)
  next
    case False
    then have eq: "topic_terms (parse_query raw) = query_tokens raw"
      by (simp add: parse_query_topic_terms)
    have "\<forall>t \<in> set (query_tokens raw). \<forall>c \<in> set t. (is_latin c \<or> is_cjk c) \<and> \<not> is_digit c"
      using query_tokens_letters letter_not_digit by blast
    with False eq show ?thesis by simp
  qed
  from a b c d show ?thesis by (intro conjI)
qed

theorem parse_query_terms_witness:
  "query_tokens (ascii ''AI since 2018'') = [ascii ''AI'']
   \<and> topic_terms (parse_query (ascii ''AI since 2018'')) = [ascii ''AI'']
   \<and> start_year (parse_query (ascii ''AI since 2018'')) = Some 2018
   \<and> fold cut_first_match (map fst year_patterns) (strip (ascii ''AI since 2018''))
       = ascii ''AI  ''
   \<and> list_all (\<lambda>c. (is_latin c \<or> is_cjk c) \<and> \<not> is_digit c) (ascii ''AI'')"
proof -
  let ?raw = "ascii ''AI since 2018''"
  note th = parse_query_terms [of ?raw]
  from th have cut: "fst (extract_years (strip ?raw))
      = fold cut_first_match (map fst year_patterns) (strip ?raw)"
    by (rule conjunct1)
  with since_years have c: "fold cut_first_match (map fst year_patterns) (strip ?raw)
      = ascii ''AI  ''" by simp
  have ne: "query_tokens ?raw \<noteq> []" by (simp add: since_tokens)
  from th have "(query_tokens ?raw \<noteq> [] \<and> topic_terms (parse_query ?raw) = query_tokens ?raw
          \<and> (\<forall>t \<in> set (topic_terms (parse_query ?raw)).
                \<forall>c \<in> set t. (is_latin c \<or> is_cjk c) \<and> \<not> is_digit c))
       \<or> (query_tokens ?raw = []
          \<and> topic_terms (parse_query ?raw)
               = (if strip ?raw = [] then [] else [take 50 (strip ?raw)]))"
    by (elim conjE)
  with ne have t: "topic_terms (parse_query ?raw) = query_tokens ?raw"
    and l: "\<forall>t \<in> set (topic_terms (parse_query ?raw)).
              \<forall>c \<in> set t. (is_latin c \<or> is_cjk c) \<and> \<not> is_digit c"
    by auto
  from t have t': "topic_terms (parse_query ?raw) = [ascii ''AI'']"
    by (simp only: since_tokens)
  from l have "\<forall>c \<in> set (ascii ''AI''). (is_latin c \<or> is_cjk c) \<and> \<not> is_digit c"
    unfolding t' by simp
  then have la: "list_all (\<lambda>c. (is_latin c \<or> is_cjk c) \<and> \<not> is_digit c) (ascii ''AI'')"
    by (simp only: list_all_iff)
  have sy: "start_year (parse_query ?raw) = Some 2018" by (simp add: since_parse)
  from since_tokens t' sy c la show ?thesis by (intro conjI)
qed


text \<open>
  Claim C9 as stated fails: for the query \<open>2018-2023\<close> the range pattern matches and
  sets both years, no token is left, and the returned topic terms are not empty: the one
  term is the year phrase itself.
\<close>

theorem parse_query_year_term_counterexample:
  "parse_query (ascii ''2018-2023'')
     = \<lparr> topic_terms = [ascii ''2018-2023''], start_year = Some 2018, end_year = Some 2023,
         language = None, journal_level = None, raw_query = ascii ''2018-2023'' \<rparr>"
  by (simp add: query_eval)

section \<open>Properties of hybrid search\<close>

lemma collect_Inr:
  "collect f xs = Inr ys \<Longrightarrow> y \<in> set ys \<Longrightarrow> \<exists>x \<in> set xs. f x = Inr (Some y)"
proof (induction xs arbitrary: ys)
  case Nil
  then show ?case by simp
next
  case (Cons x xs)
  show ?case
  proof (cases "f x")
    case (Inl e)
    with Cons.prems show ?thesis by simp
  next
    case (Inr r)
    show ?thesis
    proof (cases r)
      case None
      with Inr Cons.prems have "collect f xs = Inr ys" by simp
      from Cons.IH [OF this Cons.prems(2)] show ?thesis by auto
    next
      case (Some z)
      with Inr Cons.prems obtain zs where zs: "collect f xs = Inr zs" "ys = z # zs"
        by (auto split: sum.splits)
      show ?thesis
      proof (cases "y = z")
        case True
        with Inr Some show ?thesis by simp
      next
        case False
        with Cons.prems(2) zs have "y \<in> set zs" by simp
        from Cons.IH [OF zs(1) this] show ?thesis by auto
      qed
    qed
  qed
qed

lemma collect_filter:
  assumes "collect f xs = Inr ys"
  shows "\<exists>zs. zs = filter (\<lambda>x. f x \<noteq> Inr None) xs
           \<and> map (\<lambda>x. f x) zs = map (\<lambda>y. Inr (Some y)) ys"
  using assms
proof (induction xs arbitrary: ys)
  case Nil
  then show ?case by simp
next
  case (Cons x xs)
  show ?case
  proof (cases "f x")
    case (Inl e)
    with Cons.prems show ?thesis by simp
  next
    case (Inr r)
    show ?thesis
    proof (cases r)
      case None
      with Inr Cons.prems have "collect f xs = Inr ys" by simp
      from Cons.IH [OF this] Inr None show ?thesis by simp
    next
      case (Some z)
      with Inr Cons.prems obtain zs where zs: "collect f xs = Inr zs" "ys = z # zs"
        by (auto split: sum.splits)
      from Cons.IH [OF zs(1)] Inr Some zs(2) show ?thesis by simp
    qed
  qed
qed


lemma sort_desc_set: "set (sort_desc f xs) = set xs"
  by (simp add: sort_desc_def)

lemma sort_desc_length: "length (sort_desc f xs) = length xs"
  by (simp add: sort_desc_def)


lemma fold_max_ge: "(a::'a::linorder) \<le> fold max xs a \<and> (\<forall>x \<in> set xs. x \<le> fold max xs a)"
proof (induction xs arbitrary: a)
  case Nil
  show ?case by simp
next
  case (Cons x xs)
  from Cons [of "max x a"] show ?case by (auto simp: max_def split: if_splits)
qed

lemma fold_max_mem: "fold max xs (a::'a::linorder) \<in> insert a (set xs)"
proof (induction xs arbitrary: a)
  case Nil
  show ?case by simp
next
  case (Cons x xs)
  from Cons [of "max x a"] show ?case by (auto simp: max_def split: if_splits)
qed

lemma list_max_ge: "x \<in> set xs \<Longrightarrow> x \<le> list_max xs"
  using fold_max_ge [of "hd xs" "tl xs"] by (cases xs) (auto simp: list_max_def)

lemma list_max_mem: "xs \<noteq> [] \<Longrightarrow> list_max xs \<in> set xs"
  using fold_max_mem [of "tl xs" "hd xs"] by (cases xs) (auto simp: list_max_def)

lemma max_score_pos:
  assumes "\<forall>(pid, s) \<in> set hits. 0 \<le> s"
  shows "0 < max_score hits"
proof (cases "hits = []")
  case True
  then show ?thesis by (simp add: max_score_def)
next
  case False
  then have "map snd hits \<noteq> []" by simp
  then have "list_max (map snd hits) \<in> set (map snd hits)" by (rule list_max_mem)
  with assms have "0 \<le> list_max (map snd hits)" by auto
  then show ?thesis using False by (simp add: max_score_def Let_def)
qed

lemma max_score_ge:
  assumes "\<forall>(pid, s) \<in> set hits. 0 \<le> s" and "(p, x) \<in> set hits"
  shows "x \<le> max_score hits"
proof -
  from assms(2) have ne: "hits \<noteq> []" by auto
  from assms(2) have "x \<in> set (map snd hits)" by force
  then have le: "x \<le> list_max (map snd hits)" by (rule list_max_ge)
  show ?thesis
  proof (cases "list_max (map snd hits) = 0")
    case True
    with le ne show ?thesis by (simp add: max_score_def)
  next
    case False
    with le ne show ?thesis by (simp add: max_score_def)
  qed
qed

lemma dict_set_subset: "set (dict_set d k v) \<subseteq> insert (k, v) (set d)"
  by (induction d) (auto split: if_splits)

lemma signals_of_mem:
  "signals_of ids pid = x \<Longrightarrow> x = (None, None) \<or> (pid, x) \<in> set ids"
  by (auto simp: signals_of_def split: option.splits dest: map_of_SomeD)

lemma set_bm25_ok:
  assumes "\<forall>c \<in> set ids. sig_ok B V c" and "h \<in> set B"
  shows "\<forall>c \<in> set (set_bm25 h ids). sig_ok B V c"
proof
  fix c assume c: "c \<in> set (set_bm25 h ids)"
  obtain pid s where h: "h = (pid, s)" by (cases h)
  from c h have "c = (pid, Some s, snd (signals_of ids pid)) \<or> c \<in> set ids"
    using dict_set_subset [of ids pid "(Some s, snd (signals_of ids pid))"]
    by (auto simp: set_bm25_def)
  then show "sig_ok B V c"
  proof
    assume eq: "c = (pid, Some s, snd (signals_of ids pid))"
    obtain b v where x: "signals_of ids pid = (b, v)" by (cases "signals_of ids pid")
    from signals_of_mem [OF x] assms(1) have "\<forall>t. v = Some t \<longrightarrow> (pid, t) \<in> set V"
      by (auto simp: sig_ok_def)
    with eq x assms(2) h show ?thesis by (simp add: sig_ok_def)
  next
    assume "c \<in> set ids"
    with assms(1) show ?thesis by blast
  qed
qed

lemma set_vec_ok:
  assumes "\<forall>c \<in> set ids. sig_ok B V c" and "h \<in> set V"
  shows "\<forall>c \<in> set (set_vec h ids). sig_ok B V c"
proof
  fix c assume c: "c \<in> set (set_vec h ids)"
  obtain pid s where h: "h = (pid, s)" by (cases h)
  from c h have "c = (pid, fst (signals_of ids pid), Some s) \<or> c \<in> set ids"
    using dict_set_subset [of ids pid "(fst (signals_of ids pid), Some s)"]
    by (auto simp: set_vec_def)
  then show "sig_ok B V c"
  proof
    assume eq: "c = (pid, fst (signals_of ids pid), Some s)"
    obtain b v where x: "signals_of ids pid = (b, v)" by (cases "signals_of ids pid")
    from signals_of_mem [OF x] assms(1) have "\<forall>t. b = Some t \<longrightarrow> (pid, t) \<in> set B"
      by (auto simp: sig_ok_def)
    with eq x assms(2) h show ?thesis by (simp add: sig_ok_def)
  next
    assume "c \<in> set ids"
    with assms(1) show ?thesis by blast
  qed
qed

lemma fold_set_bm25_ok:
  "\<forall>c \<in> set ids. sig_ok B V c \<Longrightarrow> set hs \<subseteq> set B
     \<Longrightarrow> \<forall>c \<in> set (fold set_bm25 hs ids). sig_ok B V c"
proof (induction hs arbitrary: ids)
  case Nil
  then show ?case by simp
next
  case (Cons h hs)
  from Cons.prems have "\<forall>c \<in> set (set_bm25 h ids). sig_ok B V c"
    by (intro set_bm25_ok) auto
  with Cons.IH [of "set_bm25 h ids"] Cons.prems(2) show ?case by simp
qed

lemma fold_set_vec_ok:
  "\<forall>c \<in> set ids. sig_ok B V c \<Longrightarrow> set hs \<subseteq> set V
     \<Longrightarrow> \<forall>c \<in> set (fold set_vec hs ids). sig_ok B V c"
proof (induction hs arbitrary: ids)
  case Nil
  then show ?case by simp
next
  case (Cons h hs)
  from Cons.prems have "\<forall>c \<in> set (set_vec h ids). sig_ok B V c"
    by (intro set_vec_ok) auto
  with Cons.IH [of "set_vec h ids"] Cons.prems(2) show ?case by simp
qed

lemma id_scores_ok: "\<forall>c \<in> set (id_scores_of B V). sig_ok B V c"
proof -
  have "\<forall>c \<in> set (fold set_bm25 B []). sig_ok B V c"
    by (rule fold_set_bm25_ok) simp_all
  then show ?thesis unfolding id_scores_of_def
    by (rule fold_set_vec_ok) simp
qed

lemma journal_weight_range: "0 \<le> journal_weight j \<and> journal_weight j \<le> 1"
  by (simp add: journal_weight_def Let_def)

lemma user_pref_score_range: "0 \<le> user_pref_score t ps \<and> user_pref_score t ps \<le> 1"
  by (simp add: user_pref_score_def Let_def)

lemma title_match_bonus_range:
  "title_match_bonus t ts q = Inr x \<Longrightarrow> 0 \<le> x \<and> x \<le> 1"
  by (auto simp: title_match_bonus_def Let_def split: if_splits sum.splits option.splits list.splits)

lemma weighted_le: "0 \<le> (w::real) \<Longrightarrow> 0 \<le> x \<Longrightarrow> x \<le> 1 \<Longrightarrow> 0 \<le> w * x \<and> w * x \<le> w"
  by (simp add: mult_left_le)

lemma fused_score_range:
  assumes w: "0 \<le> w1 w" "0 \<le> w2 w" "0 \<le> w3 w" "0 \<le> w4 w" "0 \<le> title_bonus w"
    and bm: "0 \<le> signal (fst scores) / mb" "signal (fst scores) / mb \<le> 1"
    and vc: "0 \<le> signal (snd scores) / mv" "signal (snd scores) / mv \<le> 1"
    and r: "fused_score w mb mv pref terms q md scores = Inr s"
  shows "0 \<le> s \<and> s \<le> w1 w + w2 w + w3 w + w4 w + title_bonus w"
proof -
  from r obtain tb where tb: "title_match_bonus (get_default (title md)) terms q = Inr tb"
    and s: "s = w1 w * (signal (fst scores) / mb) + w2 w * (signal (snd scores) / mv)
              + w3 w * journal_weight (get_default (journal md))
              + w4 w * user_pref_score (str_or_empty (get_default (title md)) @ ascii '' ''
                                  @ str_or_empty (get_default (abstract md))) pref
              + title_bonus w * tb"
    by (auto simp: fused_score_def Let_def split: sum.splits)
  note a = weighted_le [OF w(1) bm]
  note b = weighted_le [OF w(2) vc]
  note c = weighted_le [OF w(3) journal_weight_range [THEN conjunct1] journal_weight_range [THEN conjunct2],
      of "get_default (journal md)"]
  note d = weighted_le [OF w(4) user_pref_score_range [THEN conjunct1] user_pref_score_range [THEN conjunct2],
      of "str_or_empty (get_default (title md)) @ ascii '' '' @ str_or_empty (get_default (abstract md))" pref]
  from title_match_bonus_range [OF tb] have "0 \<le> tb" "tb \<le> 1" by simp_all
  note e = weighted_le [OF w(5) this]
  from a b c d e show ?thesis unfolding s by linarith
qed

lemma signal_ratio:
  assumes nn: "\<forall>(pid, s) \<in> set hits. 0 \<le> s"
    and mem: "\<forall>s. x = Some s \<longrightarrow> (pid, s) \<in> set hits"
  shows "0 \<le> signal x / max_score hits \<and> signal x / max_score hits \<le> 1"
proof (cases x)
  case None
  then show ?thesis by (simp add: signal_def)
next
  case (Some s)
  with mem have m: "(pid, s) \<in> set hits" by simp
  with nn have "0 \<le> s" by auto
  moreover have "s \<le> max_score hits" using nn m by (rule max_score_ge)
  moreover have "0 < max_score hits" using nn by (rule max_score_pos)
  ultimately show ?thesis using Some by (simp add: signal_def)
qed

lemma combined_scored:
  "combined be q sy ey src limit w pref terms = Inr cs
     \<Longrightarrow> \<exists>us. scored be q sy ey src limit w pref terms = Inr us \<and> cs = sort_desc snd us"
  by (auto simp: combined_def split: sum.splits)

lemma scored_member:
  assumes "scored be q sy ey src limit w pref terms = Inr us" and "(pid, s) \<in> set us"
  shows "\<exists>scores. (pid, scores) \<in> set (candidates be q sy ey src limit)
           \<and> passes_filters (md_of (fetch_papers_by_ids be
                 (map fst (candidates be q sy ey src limit))) pid) sy ey src
           \<and> fused_score w (max_score (bm25_hits be q sy ey src limit))
                 (max_score (vec_hits be q limit)) pref terms q
                 (md_of (fetch_papers_by_ids be
                    (map fst (candidates be q sy ey src limit))) pid) scores = Inr s"
proof -
  let ?ids = "candidates be q sy ey src limit"
  let ?f = "score_candidate (fetch_papers_by_ids be (map fst ?ids)) sy ey src w
                    (max_score (bm25_hits be q sy ey src limit)) (max_score (vec_hits be q limit))
                    pref terms q"
  from assms(1) have "collect ?f ?ids = Inr us" by (simp add: scored_def Let_def)
  from collect_Inr [OF this assms(2)] obtain c where c: "c \<in> set ?ids" "?f c = Inr (Some (pid, s))"
    by blast
  obtain p scores where pc: "c = (p, scores)" by (cases c)
  from c(2) pc have "p = pid"
    and "passes_filters (md_of (fetch_papers_by_ids be (map fst ?ids)) pid) sy ey src"
    and "fused_score w (max_score (bm25_hits be q sy ey src limit))
           (max_score (vec_hits be q limit)) pref terms q
           (md_of (fetch_papers_by_ids be (map fst ?ids)) pid) scores = Inr s"
    by (auto simp: score_candidate_def split: if_splits sum.splits)
  with c(1) pc show ?thesis by blast
qed

lemma map_fst_collected:
  assumes "map f xs = map (\<lambda>y. Inr (Some y)) us"
    and "\<And>x y. f x = Inr (Some y) \<Longrightarrow> fst y = fst x"
  shows "map fst us = map fst xs"
  using assms(1)
proof (induction xs arbitrary: us)
  case Nil
  then show ?case by simp
next
  case (Cons x xs)
  then obtain y ys where us: "us = y # ys" by (cases us) auto
  with Cons.prems have "f x = Inr (Some y)" "map f xs = map (\<lambda>y. Inr (Some y)) ys" by simp_all
  with Cons.IH [of ys] assms(2) [of x y] us show ?case by simp
qed

lemma py_slice_subset: "set (py_slice xs a b) \<subseteq> set xs"
  by (metis py_slice_def set_take_subset set_drop_subset subset_trans)

lemma page_results_member:
  assumes "r \<in> set (page_results meta cs pids)"
  shows "\<exists>pid d. pid \<in> set pids \<and> meta pid = Some d
           \<and> r = d\<lparr>score := Val (case map_of cs pid of None \<Rightarrow> 0 | Some s \<Rightarrow> s)\<rparr>"
proof -
  from assms obtain pid where p: "pid \<in> set pids"
    and r: "r \<in> set (case meta pid of None \<Rightarrow> []
        | Some d \<Rightarrow> [d\<lparr>score := Val (case map_of cs pid of None \<Rightarrow> 0 | Some s \<Rightarrow> s)\<rparr>])"
    by (auto simp: page_results_def)
  show ?thesis
  proof (cases "meta pid")
    case None
    with r show ?thesis by simp
  next
    case (Some d)
    with r have "r = d\<lparr>score := Val (case map_of cs pid of None \<Rightarrow> 0 | Some s \<Rightarrow> s)\<rparr>"
      by simp
    with p Some show ?thesis by blast
  qed
qed

lemma hybrid_search_fused:
  assumes "index_exists be \<or> index_ready be" and "candidates be q sy ey src limit \<noteq> []"
    and "hybrid_search be q sy ey src limit offset w pref terms = Inr (rs, t)"
  shows "\<exists>cs. combined be q sy ey src limit w pref terms = Inr cs \<and> t = length cs
           \<and> rs = page_results (fetch_papers_by_ids be (map fst (candidates be q sy ey src limit)))
                    cs (page_ids cs offset limit)"
  using assms by (auto simp: hybrid_search_def split: sum.splits)

lemma scored_ids:
  assumes "scored be q sy ey src limit w pref terms = Inr us"
  shows "map fst us
         = map fst (filter (\<lambda>c. passes_filters
               (md_of (fetch_papers_by_ids be (map fst (candidates be q sy ey src limit))) (fst c))
               sy ey src) (candidates be q sy ey src limit))"
proof -
  let ?ids = "candidates be q sy ey src limit"
  let ?meta = "fetch_papers_by_ids be (map fst ?ids)"
  let ?f = "score_candidate ?meta sy ey src w
                    (max_score (bm25_hits be q sy ey src limit)) (max_score (vec_hits be q limit))
                    pref terms q"
  from assms have col: "collect ?f ?ids = Inr us" by (simp add: scored_def Let_def)
  from collect_filter [OF col]
  have m: "map ?f (filter (\<lambda>x. ?f x \<noteq> Inr None) ?ids) = map (\<lambda>y. Inr (Some y)) us" by simp
  have keep: "(?f c \<noteq> Inr None) = passes_filters (md_of ?meta (fst c)) sy ey src"
    if "c \<in> set ?ids" for c
    by (cases c) (auto simp: score_candidate_def split: sum.splits)
  have flt: "filter (\<lambda>x. ?f x \<noteq> Inr None) ?ids
      = filter (\<lambda>c. passes_filters (md_of ?meta (fst c)) sy ey src) ?ids"
    by (rule filter_cong) (simp_all add: keep)
  have fstf: "?f c = Inr (Some y) \<Longrightarrow> fst y = fst c" for c y
    by (cases c) (auto simp: score_candidate_def split: if_splits sum.splits)
  have "map fst us = map fst (filter (\<lambda>x. ?f x \<noteq> Inr None) ?ids)"
    using m fstf by (rule map_fst_collected)
  with flt show ?thesis by simp
qed

lemma passes_no_filter: "\<not> truthy_str src \<Longrightarrow> passes_filters md None None src"
  by (simp add: passes_filters_def)

lemma page_results_length:
  "length (page_results meta cs pids) = length (filter (\<lambda>p. meta p \<noteq> None) pids)"
  by (induction pids) (auto simp: page_results_def split: option.splits)

lemma fetch_paper_id:
  "fetch_papers_by_ids be ids p = Some d \<Longrightarrow> paper_id d = Val p \<and> papers_table be p \<noteq> None"
  by (auto simp: fetch_papers_by_ids_def row_to_dict_def empty_dict_def split: if_splits)

lemma scored_same_hits:
  assumes "bm25_hits be q sy ey src k = bm25_hits be q sy ey src k'"
    and "vec_hits be q k = vec_hits be q k'"
  shows "candidates be q sy ey src k = candidates be q sy ey src k'"
    and "combined be q sy ey src k w pref terms = combined be q sy ey src k' w pref terms"
  using assms by (simp_all add: combined_def scored_def candidates_def)

lemma take_min_length: "take (min n (length xs)) xs = take n xs"
  by (cases "n \<le> length xs") (simp_all add: min_def)

lemma slice_first: "0 \<le> k \<Longrightarrow> py_slice xs 0 k = take (nat k) xs"
  by (simp add: py_slice_def slice_index_def take_min_length)

lemma slice_second:
  assumes k: "0 \<le> k"
  shows "py_slice xs k (k + k) = take (nat k) (drop (nat k) xs)"
proof -
  let ?n = "length xs"
  have a: "slice_index ?n k = min (nat k) ?n" using k by (simp add: slice_index_def)
  have b: "slice_index ?n (k + k) = min (nat k + nat k) ?n"
    using k by (simp add: slice_index_def nat_add_distrib)
  have s: "py_slice xs k (k + k)
      = take (min (nat k + nat k) ?n - min (nat k) ?n) (drop (min (nat k) ?n) xs)"
    by (simp only: py_slice_def a b)
  show ?thesis
  proof (cases "nat k \<le> ?n")
    case True
    then have "min (nat k + nat k) ?n - min (nat k) ?n = min (nat k) (?n - nat k)"
      by arith
    then have "min (nat k + nat k) ?n - min (nat k) ?n = min (nat k) (length (drop (nat k) xs))"
      by (simp only: length_drop)
    moreover from True have "min (nat k) ?n = nat k" by simp
    ultimately have "py_slice xs k (k + k)
        = take (min (nat k) (length (drop (nat k) xs))) (drop (nat k) xs)"
      using s by (simp only:)
    then show ?thesis by (simp only: take_min_length)
  next
    case False
    then have "min (nat k) ?n = ?n" by simp
    with s False show ?thesis by simp
  qed
qed

lemma slice_both: "0 \<le> k \<Longrightarrow> py_slice xs 0 (0 + 2 * k) = take (nat k + nat k) xs"
proof -
  assume "0 \<le> k"
  then have "nat (2 * k) = nat k + nat k" by simp
  with \<open>0 \<le> k\<close> show ?thesis
    by (simp add: py_slice_def slice_index_def take_min_length)
qed

lemma page_ids_concat:
  assumes "0 \<le> k"
  shows "page_ids cs 0 k @ page_ids cs k k = page_ids cs 0 (2 * k)"
proof -
  have "take (nat k) cs @ take (nat k) (drop (nat k) cs) = take (nat k + nat k) cs"
    by (simp add: take_add)
  then show ?thesis
    using assms slice_first [of k cs] slice_second [of k cs] slice_both [of k cs]
    by (simp add: page_ids_def flip: map_append)
qed

lemma page_results_append:
  "page_results meta cs (ps @ qs) = page_results meta cs ps @ page_results meta cs qs"
  by (simp add: page_results_def)

lemma hybrid_search_fused_eq:
  assumes "index_exists be \<or> index_ready be" and "candidates be q sy ey src limit \<noteq> []"
  shows "hybrid_search be q sy ey src limit offset w pref terms
     = (case combined be q sy ey src limit w pref terms of
          Inl e \<Rightarrow> Inl e
        | Inr cs \<Rightarrow>
            Inr (page_results
                   (fetch_papers_by_ids be (map fst (candidates be q sy ey src limit)))
                   cs (page_ids cs offset limit), length cs))"
  using assms by (simp add: hybrid_search_def)















lemmas search_eval = hybrid_search_def combined_def scored_def candidates_def bm25_hits_def
  vec_hits_def id_scores_of_def set_bm25_def set_vec_def signals_of_def max_score_def
  list_max_def score_candidate_def passes_filters_def year_or_zero_def md_of_def
  fetch_papers_by_ids_def row_to_dict_def year_of_row_def fused_score_def
  title_match_bonus_def journal_weight_def user_pref_score_def get_default_def signal_def
  page_ids_def page_results_def py_slice_def slice_index_def sort_desc_def es_backend_def
  vec_backend_def demo_table_def demo_row_def default_weights_def page_summary_def
  str_or_empty_def empty_dict_def strip_def is_space_def lower_def lower_char_def ascii_def
  digits_value_def is_digit_def high_venues_def py_int_def Let_def


lemma page_summary_Inr:
  "page_summary x = Inr (s, n) \<Longrightarrow> \<exists>rs. x = Inr (rs, n) \<and> map (\<lambda>d. (paper_id d, score d)) rs = s"
  by (auto simp: page_summary_def split: sum.splits)
















text \<open>
  Facts about the year filter that hold: a present integer year outside the bounds
  excludes the candidate, and so does a missing year under a positive lower bound. Under
  an upper bound alone a missing year does not: it counts as year 0.
\<close>

lemma year_filter_outside:
  "year md = Val (YInt y) \<Longrightarrow> passes_filters md sy ey src
     \<Longrightarrow> (\<forall>s. sy = Some s \<longrightarrow> s \<le> y) \<and> (\<forall>e. ey = Some e \<longrightarrow> y \<le> e)"
  by (auto simp: passes_filters_def year_or_zero_def split: option.splits)

lemma year_filter_start_missing:
  "fget (year md) = None \<Longrightarrow> 0 < s \<Longrightarrow> \<not> passes_filters md (Some s) ey src"
  by (simp add: passes_filters_def year_or_zero_def)

lemma year_filter_end_missing:
  "fget (year md) = None \<Longrightarrow> 0 \<le> e \<Longrightarrow> \<not> truthy_str src \<Longrightarrow> passes_filters md None (Some e) src"
  by (simp add: passes_filters_def year_or_zero_def)

text \<open>
  Claim C1 at a failing input. Only the vector backend is there; it returns paper \<open>c\<close>,
  whose row has \<open>NULL\<close> for year. With \<open>end_year = 2020\<close> and no \<open>start_year\<close> the
  candidate is not excluded: \<open>int(md.get("year") or 0)\<close> is 0, which is not above 2020.
  The paper is returned and counted.
\<close>

theorem end_filter_keeps_missing_year:
  "map_option r_year (demo_table (ascii ''c'')) = Some None
   \<and> page_summary (hybrid_search (vec_backend [(ascii ''c'', 8 / 10)]) (ascii ''ai'')
        None (Some 2020) None 10 0 default_weights [] None)
     = Inr ([(Val (ascii ''c''), Val (9 / 20))], 1)"
  by (simp add: search_eval)





text \<open>
  Claim C3. On the fused path, with weights that are not negative and raw backend
  scores that are not negative, whenever the call returns, every candidate's fused score
  and every returned score lie between 0 and the sum of the five weights. Scores are
  real numbers here.
\<close>

theorem fused_score_bounded:
  assumes be: "index_exists be \<or> index_ready be" and ne: "candidates be q sy ey src limit \<noteq> []"
    and w: "0 \<le> w1 w" "0 \<le> w2 w" "0 \<le> w3 w" "0 \<le> w4 w" "0 \<le> title_bonus w"
    and b: "\<forall>(pid, s) \<in> set (bm25_hits be q sy ey src limit). 0 \<le> s"
    and v: "\<forall>(pid, s) \<in> set (vec_hits be q limit). 0 \<le> s"
    and r: "hybrid_search be q sy ey src limit offset w pref terms = Inr (rs, t)"
  shows "(\<exists>cs. combined be q sy ey src limit w pref terms = Inr cs
            \<and> (\<forall>(pid, s) \<in> set cs. 0 \<le> s \<and> s \<le> w1 w + w2 w + w3 w + w4 w + title_bonus w))
       \<and> (\<forall>d \<in> set rs. \<exists>s. score d = Val s
              \<and> 0 \<le> s \<and> s \<le> w1 w + w2 w + w3 w + w4 w + title_bonus w)"
proof -
  let ?W = "w1 w + w2 w + w3 w + w4 w + title_bonus w"
  let ?B = "bm25_hits be q sy ey src limit"
  let ?V = "vec_hits be q limit"
  from hybrid_search_fused [OF be ne r] obtain cs
    where cs: "combined be q sy ey src limit w pref terms = Inr cs"
      and rs: "rs = page_results (fetch_papers_by_ids be (map fst (candidates be q sy ey src limit)))
                    cs (page_ids cs offset limit)"
    by blast
  from combined_scored [OF cs] obtain us
    where us: "scored be q sy ey src limit w pref terms = Inr us" "cs = sort_desc snd us" by blast
  have range: "0 \<le> s \<and> s \<le> ?W" if "(pid, s) \<in> set cs" for pid s
  proof -
    from that us(2) have "(pid, s) \<in> set us" by (simp add: sort_desc_set)
    from scored_member [OF us(1) this] obtain scores
      where c: "(pid, scores) \<in> set (candidates be q sy ey src limit)"
        and f: "fused_score w (max_score ?B) (max_score ?V) pref terms q
                 (md_of (fetch_papers_by_ids be
                    (map fst (candidates be q sy ey src limit))) pid) scores = Inr s"
      by blast
    from c id_scores_ok [of ?B ?V] have ok: "sig_ok ?B ?V (pid, scores)"
      by (simp add: candidates_def)
    then have m1: "\<forall>s. fst scores = Some s \<longrightarrow> (pid, s) \<in> set ?B"
      and m2: "\<forall>s. snd scores = Some s \<longrightarrow> (pid, s) \<in> set ?V"
      by (auto simp: sig_ok_def split: prod.splits)
    from signal_ratio [OF b m1] signal_ratio [OF v m2] fused_score_range [OF w _ _ _ _ f]
    show ?thesis by blast
  qed
  have res: "\<exists>s. score d = Val s \<and> 0 \<le> s \<and> s \<le> ?W" if "d \<in> set rs" for d
  proof -
    from that rs page_results_member obtain pid d0
      where p: "pid \<in> set (page_ids cs offset limit)"
        and d: "d = d0\<lparr>score := Val (case map_of cs pid of None \<Rightarrow> 0 | Some s \<Rightarrow> s)\<rparr>"
      by blast
    from p obtain x where "x \<in> set (py_slice cs offset (offset + limit))" "fst x = pid"
      by (auto simp: page_ids_def)
    with py_slice_subset [of cs offset "offset + limit"] have "pid \<in> fst ` set cs" by auto
    then obtain s where s: "map_of cs pid = Some s"
      by (metis weak_map_of_SomeI map_of_eq_None_iff not_None_eq)
    then have "(pid, s) \<in> set cs" by (rule map_of_SomeD)
    from range [OF this] d s show ?thesis by simp
  qed
  from cs range res show ?thesis by blast
qed

lemma three_hits:
  "bm25_hits (es_backend [(ascii ''a'', 3), (ascii ''b'', 2), (ascii ''c'', 1)]) (ascii ''ai'')
      None None None 2 = [(ascii ''a'', 3), (ascii ''b'', 2), (ascii ''c'', 1)]"
  "vec_hits (es_backend [(ascii ''a'', 3), (ascii ''b'', 2), (ascii ''c'', 1)]) (ascii ''ai'') 2 = []"
  by (simp_all add: search_eval)

lemma three_page:
  "page_summary (hybrid_search (es_backend [(ascii ''a'', 3), (ascii ''b'', 2), (ascii ''c'', 1)])
      (ascii ''ai'') None None None 2 0 default_weights [] None)
     = Inr ([(Val (ascii ''a''), Val (9 / 20)), (Val (ascii ''c''), Val (7 / 20))], 3)"
  by (simp add: search_eval)

theorem fused_score_bounded_witness:
  "index_exists (es_backend [(ascii ''a'', 3), (ascii ''b'', 2), (ascii ''c'', 1)])
   \<and> bm25_hits (es_backend [(ascii ''a'', 3), (ascii ''b'', 2), (ascii ''c'', 1)]) (ascii ''ai'')
        None None None 2 = [(ascii ''a'', 3), (ascii ''b'', 2), (ascii ''c'', 1)]
   \<and> vec_hits (es_backend [(ascii ''a'', 3), (ascii ''b'', 2), (ascii ''c'', 1)]) (ascii ''ai'') 2 = []
   \<and> page_summary (hybrid_search (es_backend [(ascii ''a'', 3), (ascii ''b'', 2), (ascii ''c'', 1)])
        (ascii ''ai'') None None None 2 0 default_weights [] None)
       = Inr ([(Val (ascii ''a''), Val (9 / 20)), (Val (ascii ''c''), Val (7 / 20))], 3)
   \<and> (\<exists>cs. combined (es_backend [(ascii ''a'', 3), (ascii ''b'', 2), (ascii ''c'', 1)])
              (ascii ''ai'') None None None 2 default_weights [] None = Inr cs
          \<and> list_all (\<lambda>c. 0 \<le> snd c \<and> snd c \<le> w1 default_weights + w2 default_weights
                + w3 default_weights + w4 default_weights + title_bonus default_weights) cs)"
proof -
  let ?be = "es_backend [(ascii ''a'', 3), (ascii ''b'', 2), (ascii ''c'', 1)]"
  have ie: "index_exists ?be \<or> index_ready ?be" by (simp add: es_backend_def)
  have ne: "candidates ?be (ascii ''ai'') None None None 2 \<noteq> []"
    by (simp add: candidates_def three_hits id_scores_of_def set_bm25_def)
  have w: "0 \<le> w1 default_weights" "0 \<le> w2 default_weights" "0 \<le> w3 default_weights"
    "0 \<le> w4 default_weights" "0 \<le> title_bonus default_weights"
    by (simp_all add: default_weights_def)
  have b: "\<forall>(pid, s) \<in> set (bm25_hits ?be (ascii ''ai'') None None None 2). 0 \<le> s"
    by (simp add: three_hits)
  have v: "\<forall>(pid, s) \<in> set (vec_hits ?be (ascii ''ai'') 2). 0 \<le> s"
    by (simp add: three_hits)
  from page_summary_Inr [OF three_page] obtain rs
    where r: "hybrid_search ?be (ascii ''ai'') None None None 2 0 default_weights [] None
                = Inr (rs, 3)" by blast
  from fused_score_bounded [OF ie ne w b v r] obtain cs
    where cs: "combined ?be (ascii ''ai'') None None None 2 default_weights [] None = Inr cs"
      and bd: "\<forall>(pid, s) \<in> set cs. 0 \<le> s \<and> s \<le> w1 default_weights + w2 default_weights
                + w3 default_weights + w4 default_weights + title_bonus default_weights"
    by blast
  from bd have "list_all (\<lambda>c. 0 \<le> snd c \<and> snd c \<le> w1 default_weights + w2 default_weights
                + w3 default_weights + w4 default_weights + title_bonus default_weights) cs"
    by (auto simp: list_all_iff)
  with cs three_hits three_page show ?thesis by (simp add: es_backend_def)
qed





text \<open>
  Claim C5, as the code has it. The backends are asked for \<open>2 * limit\<close> hits, so the
  candidates depend on \<open>limit\<close>. On the fused path, when the backends give the same hits
  for \<open>limit = k\<close> and for \<open>limit = 2k\<close>, the pages at offsets 0 and \<open>k\<close> with limit
  \<open>k\<close> concatenate to the page at offset 0 with limit \<open>2k\<close>, with the same total (and
  an exception in one of the three calls is the same exception in all).
\<close>

theorem pagination_same_hits:
  assumes k: "0 < k" and be: "index_exists be \<or> index_ready be"
    and ne: "candidates be q sy ey src k \<noteq> []"
    and b: "bm25_hits be q sy ey src k = bm25_hits be q sy ey src (2 * k)"
    and v: "vec_hits be q k = vec_hits be q (2 * k)"
  shows "case hybrid_search be q sy ey src k 0 w pref terms of
           Inl e \<Rightarrow> hybrid_search be q sy ey src k k w pref terms = Inl e
                    \<and> hybrid_search be q sy ey src (2 * k) 0 w pref terms = Inl e
         | Inr (r1, t) \<Rightarrow>
             (\<exists>r2. hybrid_search be q sy ey src k k w pref terms = Inr (r2, t)
                 \<and> hybrid_search be q sy ey src (2 * k) 0 w pref terms = Inr (r1 @ r2, t))"
proof -
  let ?meta = "fetch_papers_by_ids be (map fst (candidates be q sy ey src k))"
  have c2: "candidates be q sy ey src (2 * k) = candidates be q sy ey src k"
    using scored_same_hits(1) [OF b v] by simp
  have m2: "combined be q sy ey src (2 * k) w pref terms = combined be q sy ey src k w pref terms"
    using scored_same_hits(2) [OF b v] by simp
  from ne c2 have ne2: "candidates be q sy ey src (2 * k) \<noteq> []" by simp
  note h1 = hybrid_search_fused_eq [OF be ne, of 0 w pref terms]
  note h2 = hybrid_search_fused_eq [OF be ne, of k w pref terms]
  note h3 = hybrid_search_fused_eq [OF be ne2, of 0 w pref terms, unfolded c2 m2]
  show ?thesis
  proof (cases "combined be q sy ey src k w pref terms")
    case (Inl e)
    then show ?thesis by (simp add: h1 h2 h3)
  next
    case (Inr cs)
    from k have "page_ids cs 0 k @ page_ids cs k k = page_ids cs 0 (2 * k)"
      by (intro page_ids_concat) simp
    then have "page_results ?meta cs (page_ids cs 0 (2 * k))
        = page_results ?meta cs (page_ids cs 0 k) @ page_results ?meta cs (page_ids cs k k)"
      by (metis page_results_append)
    with Inr show ?thesis by (simp add: h1 h2 h3)
  qed
qed

lemma two_hits:
  "bm25_hits (es_backend [(ascii ''a'', 3), (ascii ''b'', 2)]) (ascii ''x'') None None None 1
     = [(ascii ''a'', 3), (ascii ''b'', 2)]"
  "bm25_hits (es_backend [(ascii ''a'', 3), (ascii ''b'', 2)]) (ascii ''x'') None None None (2 * 1)
     = [(ascii ''a'', 3), (ascii ''b'', 2)]"
  "vec_hits (es_backend [(ascii ''a'', 3), (ascii ''b'', 2)]) (ascii ''x'') 1 = []"
  "vec_hits (es_backend [(ascii ''a'', 3), (ascii ''b'', 2)]) (ascii ''x'') (2 * 1) = []"
  by (simp_all add: search_eval)

lemma two_first_page:
  "page_summary (hybrid_search (es_backend [(ascii ''a'', 3), (ascii ''b'', 2)])
      (ascii ''x'') None None None 1 0 default_weights [] None)
     = Inr ([(Val (ascii ''a''), Val (9 / 20))], 2)"
  by (simp add: search_eval)

lemma two_second_page:
  "page_summary (hybrid_search (es_backend [(ascii ''a'', 3), (ascii ''b'', 2)])
      (ascii ''x'') None None None 1 1 default_weights [] None)
     = Inr ([(Val (ascii ''b''), Val (3 / 10))], 2)"
  by (simp add: search_eval)

theorem pagination_same_hits_witness:
  "bm25_hits (es_backend [(ascii ''a'', 3), (ascii ''b'', 2)]) (ascii ''x'') None None None 1
     = bm25_hits (es_backend [(ascii ''a'', 3), (ascii ''b'', 2)]) (ascii ''x'') None None None (2 * 1)
   \<and> vec_hits (es_backend [(ascii ''a'', 3), (ascii ''b'', 2)]) (ascii ''x'') 1
     = vec_hits (es_backend [(ascii ''a'', 3), (ascii ''b'', 2)]) (ascii ''x'') (2 * 1)
   \<and> (\<exists>r1 r2. hybrid_search (es_backend [(ascii ''a'', 3), (ascii ''b'', 2)])
                  (ascii ''x'') None None None 1 0 default_weights [] None = Inr (r1, 2)
        \<and> hybrid_search (es_backend [(ascii ''a'', 3), (ascii ''b'', 2)])
                  (ascii ''x'') None None None 1 1 default_weights [] None = Inr (r2, 2)
        \<and> hybrid_search (es_backend [(ascii ''a'', 3), (ascii ''b'', 2)])
                  (ascii ''x'') None None None (2 * 1) 0 default_weights [] None = Inr (r1 @ r2, 2)
        \<and> map paper_id r1 = [Val (ascii ''a'')] \<and> map paper_id r2 = [Val (ascii ''b'')])"
proof -
  let ?be = "es_backend [(ascii ''a'', 3), (ascii ''b'', 2)]"
  have k: "(0::int) < 1" by simp
  have ie: "index_exists ?be \<or> index_ready ?be" by (simp add: es_backend_def)
  have ne: "candidates ?be (ascii ''x'') None None None 1 \<noteq> []"
    by (simp add: candidates_def two_hits id_scores_of_def set_bm25_def)
  have b: "bm25_hits ?be (ascii ''x'') None None None 1
      = bm25_hits ?be (ascii ''x'') None None None (2 * 1)"
    by (simp only: two_hits)
  have v: "vec_hits ?be (ascii ''x'') 1 = vec_hits ?be (ascii ''x'') (2 * 1)"
    by (simp only: two_hits)
  from page_summary_Inr [OF two_first_page] obtain r1
    where r1: "hybrid_search ?be (ascii ''x'') None None None 1 0 default_weights [] None
                 = Inr (r1, 2)"
      and i1: "map (\<lambda>d. (paper_id d, score d)) r1 = [(Val (ascii ''a''), Val (9 / 20))]"
    by (elim exE conjE)
  from page_summary_Inr [OF two_second_page] obtain r2
    where r2: "hybrid_search ?be (ascii ''x'') None None None 1 1 default_weights [] None
                 = Inr (r2, 2)"
      and i2: "map (\<lambda>d. (paper_id d, score d)) r2 = [(Val (ascii ''b''), Val (3 / 10))]"
    by (elim exE conjE)
  from pagination_same_hits [OF k ie ne b v, of default_weights "[]" None] r1 r2
  have r3: "hybrid_search ?be (ascii ''x'') None None None (2 * 1) 0 default_weights [] None
              = Inr (r1 @ r2, 2)"
    by simp
  from i1 have p1: "map paper_id r1 = [Val (ascii ''a'')]" by auto
  from i2 have p2: "map paper_id r2 = [Val (ascii ''b'')]" by auto
  from b v r1 r2 r3 p1 p2 show ?thesis by (intro conjI exI [of _ r1] exI [of _ r2])
qed

text \<open>
  Claim C5 as stated fails: the backend state is the same in the three calls, yet with
  limit 1 only two hits are fetched and the pages are \<open>a\<close> then \<open>b\<close> of 2, while with
  limit 2 the third hit \<open>c\<close> is fetched too, its title matches the query, and the page
  is \<open>a, c\<close> of 3.
\<close>

theorem pagination_counterexample:
  "page_summary (hybrid_search (es_backend [(ascii ''a'', 3), (ascii ''b'', 2), (ascii ''c'', 1)])
      (ascii ''ai'') None None None 1 0 default_weights [] None)
     = Inr ([(Val (ascii ''a''), Val (9 / 20))], 2)
   \<and> page_summary (hybrid_search (es_backend [(ascii ''a'', 3), (ascii ''b'', 2), (ascii ''c'', 1)])
      (ascii ''ai'') None None None 1 1 default_weights [] None)
     = Inr ([(Val (ascii ''b''), Val (3 / 10))], 2)
   \<and> page_summary (hybrid_search (es_backend [(ascii ''a'', 3), (ascii ''b'', 2), (ascii ''c'', 1)])
      (ascii ''ai'') None None None 2 0 default_weights [] None)
     = Inr ([(Val (ascii ''a''), Val (9 / 20)), (Val (ascii ''c''), Val (7 / 20))], 3)"
  by (simp add: search_eval)

text \<open>
  Claim C10. On the fused path without year or source filter, a paper that a backend
  returned and that has no row in the table is a candidate that passes: it is in
  \<open>combined\<close>, the total counts every candidate, no returned result is that paper, and
  a page whose window holds it has fewer results than the window has ids.
\<close>

theorem missing_metadata_counted:
  assumes be: "index_exists be \<or> index_ready be"
    and mem: "pid \<in> fst ` set (candidates be q None None src limit)"
    and nosrc: "\<not> truthy_str src"
    and miss: "papers_table be pid = None"
    and r: "hybrid_search be q None None src limit offset w pref terms = Inr (rs, t)"
  shows "t = length (candidates be q None None src limit)
     \<and> (\<exists>cs. combined be q None None src limit w pref terms = Inr cs \<and> pid \<in> fst ` set cs
            \<and> (pid \<in> set (page_ids cs offset limit)
                 \<longrightarrow> length rs < length (page_ids cs offset limit)))
     \<and> (\<forall>d \<in> set rs. paper_id d \<noteq> Val pid)"
proof -
  let ?ids = "candidates be q None None src limit"
  let ?meta = "fetch_papers_by_ids be (map fst ?ids)"
  from mem have ne: "?ids \<noteq> []" by auto
  from hybrid_search_fused [OF be ne r] obtain cs
    where cs: "combined be q None None src limit w pref terms = Inr cs" and t: "t = length cs"
      and rs: "rs = page_results ?meta cs (page_ids cs offset limit)"
    by blast
  from combined_scored [OF cs] obtain us
    where us: "scored be q None None src limit w pref terms = Inr us" "cs = sort_desc snd us"
    by blast
  have "filter (\<lambda>c. passes_filters (md_of ?meta (fst c)) None None src) ?ids = ?ids"
    using nosrc by (simp add: passes_no_filter)
  with scored_ids [OF us(1)] have ids: "map fst us = map fst ?ids" by simp
  then have "length us = length ?ids" by (metis length_map)
  with t us(2) have c1: "t = length ?ids" by (simp add: sort_desc_length)
  from ids have "fst ` set us = fst ` set ?ids" by (metis set_map)
  with mem us(2) have c2: "pid \<in> fst ` set cs" by (simp add: sort_desc_set)
  have none: "?meta pid = None" using miss by (simp add: fetch_papers_by_ids_def)
  have c3: "length rs < length (page_ids cs offset limit)"
    if "pid \<in> set (page_ids cs offset limit)"
  proof -
    from that none
    have "length (filter (\<lambda>p. ?meta p \<noteq> None) (page_ids cs offset limit))
        < length (page_ids cs offset limit)"
      by (intro length_filter_less) auto
    then show ?thesis by (simp add: rs page_results_length)
  qed
  have c4: "paper_id d \<noteq> Val pid" if "d \<in> set rs" for d
  proof -
    from that rs page_results_member obtain p d0 where "?meta p = Some d0"
      and d: "d = d0\<lparr>score := Val (case map_of cs p of None \<Rightarrow> 0 | Some s \<Rightarrow> s)\<rparr>"
      by blast
    from fetch_paper_id [OF this(1)] have "paper_id d0 = Val p" "papers_table be p \<noteq> None"
      by simp_all
    with miss d show ?thesis by auto
  qed
  from c1 cs c2 c3 c4 show ?thesis by blast
qed

lemma gap_page:
  "page_summary (hybrid_search (es_backend [(ascii ''a'', 3), (ascii ''zz'', 2), (ascii ''c'', 1)])
      [] None None None 2 0 default_weights [] None)
     = Inr ([(Val (ascii ''a''), Val (9 / 20))], 3)"
  by (simp add: search_eval)

lemma gap_candidates:
  "map fst (candidates (es_backend [(ascii ''a'', 3), (ascii ''zz'', 2), (ascii ''c'', 1)])
      [] None None None 2) = [ascii ''a'', ascii ''zz'', ascii ''c'']"
  by (simp add: search_eval)

lemma gap_missing:
  "papers_table (es_backend [(ascii ''a'', 3), (ascii ''zz'', 2), (ascii ''c'', 1)]) (ascii ''zz'')
     = None"
  by (simp add: es_backend_def demo_table_def ascii_def)

theorem missing_metadata_counted_witness:
  "map fst (candidates (es_backend [(ascii ''a'', 3), (ascii ''zz'', 2), (ascii ''c'', 1)])
      [] None None None 2) = [ascii ''a'', ascii ''zz'', ascii ''c'']
   \<and> papers_table (es_backend [(ascii ''a'', 3), (ascii ''zz'', 2), (ascii ''c'', 1)])
        (ascii ''zz'') = None
   \<and> page_summary (hybrid_search (es_backend [(ascii ''a'', 3), (ascii ''zz'', 2), (ascii ''c'', 1)])
        [] None None None 2 0 default_weights [] None)
       = Inr ([(Val (ascii ''a''), Val (9 / 20))], 3)
   \<and> length (candidates (es_backend [(ascii ''a'', 3), (ascii ''zz'', 2), (ascii ''c'', 1)])
        [] None None None 2) = 3
   \<and> (\<exists>cs. combined (es_backend [(ascii ''a'', 3), (ascii ''zz'', 2), (ascii ''c'', 1)])
              [] None None None 2 default_weights [] None = Inr cs
          \<and> ascii ''zz'' \<in> fst ` set cs)"
proof -
  let ?be = "es_backend [(ascii ''a'', 3), (ascii ''zz'', 2), (ascii ''c'', 1)]"
  have ie: "index_exists ?be \<or> index_ready ?be" by (simp add: es_backend_def)
  have "ascii ''zz'' \<in> set (map fst (candidates ?be [] None None None 2))"
    by (simp only: gap_candidates) simp
  then have mem: "ascii ''zz'' \<in> fst ` set (candidates ?be [] None None None 2)" by simp
  have nosrc: "\<not> truthy_str None" by simp
  from page_summary_Inr [OF gap_page] obtain rs
    where r: "hybrid_search ?be [] None None None 2 0 default_weights [] None = Inr (rs, 3)"
    by (elim exE conjE)
  note m = missing_metadata_counted [OF ie mem nosrc gap_missing r]
  from m have len: "3 = length (candidates ?be [] None None None 2)" by (rule conjunct1)
  from m obtain cs where "combined ?be [] None None None 2 default_weights [] None = Inr cs"
    and "ascii ''zz'' \<in> fst ` set cs"
    by (elim exE conjE)
  then have ex: "\<exists>cs. combined ?be [] None None None 2 default_weights [] None = Inr cs
          \<and> ascii ''zz'' \<in> fst ` set cs"
    by (intro exI [of _ cs] conjI)
  from len ex gap_candidates gap_missing gap_page show ?thesis by simp
qed

end
